theory Spec2Isabelle
  imports Complex_Main "HOL-Library.Word" "HOL-Library.List_Lexorder"
begin

section \<open>Heap files: the data model\<close>

text \<open>
  A shallow embedding of \<^verbatim>\<open>heapfile.C\<close>: the heap-file layer of a record manager.
  A heap file is a chain of slotted data pages behind one header page; a handle
  (\<^verbatim>\<open>HeapFile\<close>, \<^verbatim>\<open>HeapFileScan\<close>, \<^verbatim>\<open>InsertFileScan\<close>) keeps the header page
  and at most one data page pinned in the buffer pool.

  The status codes are those the functions of \<^verbatim>\<open>heapfile.C\<close> name, together with the
  ones the page and buffer layers of the model report.
\<close>

datatype Status =
    OK | FILEEOF | ENDOFPAGE | NORECORDS | NOSPACE | INVALIDSLOTNO | INVALIDRECLEN
  | BADSCANPARM | FILEEXISTS | BADPAGENO | BUFFEREXCEEDED | PAGENOTPINNED | UNIXERR

type_synonym byte = "8 word"

text \<open>
  \<^verbatim>\<open>struct Record { void* data; int length; }\<close>: a byte buffer; \<^verbatim>\<open>rec.length\<close> is the
  length of the list.
\<close>

type_synonym Record = "byte list"

record RID =
  pageNo :: int
  slotNo :: int

definition NULLRID :: RID where
  "NULLRID = \<lparr>pageNo = -1, slotNo = -1\<rparr>"

text \<open>
  \<^verbatim>\<open>enum Datatype\<close> and \<^verbatim>\<open>enum Operator\<close>. A C++ enum object can hold a value that
  names no enumerator, and \<^verbatim>\<open>startScan\<close> tests for it, so each type has one more
  constructor for such a value.
\<close>

datatype Datatype = STRING | INTEGER | FLOAT | DatatypeOther int

datatype Operator = LT | LTE | EQ | GTE | GT | NE | OperatorOther int

subsection \<open>The slotted page\<close>

text \<open>
  Modelled from the spec: class \<^verbatim>\<open>Page\<close> (\<^verbatim>\<open>page.h\<close>, \<^verbatim>\<open>page.C\<close>) is not among the
  sources. The spec's page image holds zero or more slotted records and one forward
  link (terminator \<open>-1\<close>), and offers \<open>initialize\<close>, \<open>setNextPageLink\<close>, \<open>nextPageLink\<close>,
  \<open>insertSlot \<rightarrow> slotId | NoSpace\<close>, \<open>deleteSlot \<rightarrow> ok | NotFound\<close>,
  \<open>getSlot \<rightarrow> bytes | NotFound\<close>, \<open>firstSlot \<rightarrow> slotId | Empty\<close> and
  \<open>nextSlot(after) \<rightarrow> slotId | EndOfPage\<close>. Here a page is its slot array (an empty
  slot is \<open>None\<close>), its forward link and the page number \<open>init\<close> gave it. A page offers
  \<open>PAGESIZE - DPFIXED\<close> bytes beyond its first slot entry; every further slot entry
  costs \<open>sizeof_slot\<close> bytes.
\<close>

record Page =
  slot :: "Record option list"
  nextPage :: int
  pageNum :: int

definition PAGESIZE :: nat where
  "PAGESIZE = 1024"

definition DPFIXED :: nat where
  "DPFIXED = 20"

definition sizeof_slot :: nat where
  "sizeof_slot = 4"

definition Page_init :: "int \<Rightarrow> Page" where
  "Page_init pno = \<lparr>slot = [], nextPage = -1, pageNum = pno\<rparr>"

definition Page_setNextPage :: "Page \<Rightarrow> int \<Rightarrow> Status + Page" where
  "Page_setNextPage pg n = Inr (pg\<lparr>nextPage := n\<rparr>)"

definition Page_getNextPage :: "Page \<Rightarrow> Status + int" where
  "Page_getNextPage pg = Inr (nextPage pg)"

text \<open>The first occupied slot with index at least \<open>i\<close>.\<close>

definition nextLive :: "Page \<Rightarrow> nat \<Rightarrow> nat option" where
  "nextLive pg i = List.find (\<lambda>j. slot pg ! j \<noteq> None) [i..<length (slot pg)]"

definition ridOf :: "Page \<Rightarrow> nat \<Rightarrow> RID" where
  "ridOf pg j = \<lparr>pageNo = pageNum pg, slotNo = int j\<rparr>"

text \<open>
  A page function returns \<open>Inl\<close> of its failure status, or \<open>Inr\<close> of what it
  delivers with status \<open>OK\<close>; on a failure it leaves its reference parameter and
  the page as they were.
\<close>

definition statusOf :: "Status + 'a \<Rightarrow> Status" where
  "statusOf r = (case r of Inl status \<Rightarrow> status | Inr _ \<Rightarrow> OK)"

definition valueOf :: "Status + 'a \<Rightarrow> 'a option" where
  "valueOf r = (case r of Inl _ \<Rightarrow> None | Inr v \<Rightarrow> Some v)"

definition Page_firstRecord :: "Page \<Rightarrow> Status + RID" where
  "Page_firstRecord pg =
     (case nextLive pg 0 of
        Some j \<Rightarrow> Inr (ridOf pg j)
      | None \<Rightarrow> Inl NORECORDS)"

definition Page_nextRecord :: "Page \<Rightarrow> RID \<Rightarrow> Status + RID" where
  "Page_nextRecord pg curRid =
     (case nextLive pg (nat (slotNo curRid + 1)) of
        Some j \<Rightarrow> Inr (ridOf pg j)
      | None \<Rightarrow> Inl ENDOFPAGE)"

definition Page_getRecord :: "Page \<Rightarrow> RID \<Rightarrow> Status + Record" where
  "Page_getRecord pg rid =
     (if 0 \<le> slotNo rid \<and> slotNo rid < int (length (slot pg)) then
        (case slot pg ! nat (slotNo rid) of
           Some r \<Rightarrow> Inr r
         | None \<Rightarrow> Inl INVALIDSLOTNO)
      else Inl INVALIDSLOTNO)"

definition Page_deleteRecord :: "Page \<Rightarrow> RID \<Rightarrow> Status + Page" where
  "Page_deleteRecord pg rid =
     (if 0 \<le> slotNo rid \<and> slotNo rid < int (length (slot pg))
         \<and> slot pg ! nat (slotNo rid) \<noteq> None
      then Inr (pg\<lparr>slot := (slot pg)[nat (slotNo rid) := None]\<rparr>)
      else Inl INVALIDSLOTNO)"

definition usedSpace :: "Page \<Rightarrow> nat" where
  "usedSpace pg =
     sum_list (map (\<lambda>e. case e of None \<Rightarrow> 0 | Some r \<Rightarrow> length r) (slot pg))
       + sizeof_slot * length (slot pg)"

definition pageSpace :: nat where
  "pageSpace = PAGESIZE - DPFIXED + sizeof_slot"

definition Page_insertRecord :: "Page \<Rightarrow> Record \<Rightarrow> Status + RID \<times> Page" where
  "Page_insertRecord pg rec =
     (case List.find (\<lambda>j. slot pg ! j = None) [0..<length (slot pg)] of
        Some j \<Rightarrow>
          if pageSpace < usedSpace pg + length rec then Inl NOSPACE
          else Inr (ridOf pg j, pg\<lparr>slot := (slot pg)[j := Some rec]\<rparr>)
      | None \<Rightarrow>
          if pageSpace < usedSpace pg + sizeof_slot + length rec then Inl NOSPACE
          else Inr (ridOf pg (length (slot pg)), pg\<lparr>slot := slot pg @ [Some rec]\<rparr>))"

subsection \<open>The header page\<close>

text \<open>\<^verbatim>\<open>FileHdrPage\<close>, with the fields \<^verbatim>\<open>heapfile.C\<close> reads and writes.\<close>

record FileHdrPage =
  fileName :: string
  firstPage :: int
  lastPage :: int
  pageCnt :: int
  recCnt :: int

subsection \<open>The state: one handle, its file and the buffer pool\<close>

text \<open>
  The state a method runs on: the members of the handle, and the two globals the
  methods reach through \<^verbatim>\<open>db\<close> and \<^verbatim>\<open>bufMgr\<close>.

  Modelled from the spec: the file layer and the buffer pool (\<^verbatim>\<open>db.h\<close>, \<^verbatim>\<open>buf.h\<close>) are
  not among the sources. The spec's buffer pool offers \<open>pin\<close>, \<open>unpin\<close> (an error on a
  page that is not pinned) and \<open>allocate\<close>. Here the file is the list of its pages
  by page number (\<open>filePages\<close>; the entry at the header's page number is a
  placeholder, the header's image is \<open>hdrImage\<close>), the pool has \<open>numBufs\<close> frames,
  \<open>pinned\<close> holds one entry per outstanding pin, and \<open>bufLog\<close> records every call to
  the pool in order.

  A \<^verbatim>\<open>Page*\<close> is \<open>None\<close> (the null pointer) or \<open>Some p\<close>, the frame that holds page
  \<open>p\<close>; \<open>curPage\<close> and \<open>curPageNo\<close> are separate members, as in the class. Page and
  slot numbers and the counters of the header are C \<^verbatim>\<open>int\<close>s that would need \<open>2^31\<close>
  operations to overflow; they are modelled as \<open>int\<close>. The filter's offset and length
  come straight from the caller and are 32-bit words.
\<close>

datatype BufEvent =
    EvRead int Status
  | EvUnPin int bool Status
  | EvAlloc int Status

record HeapFile =
  fileExists :: bool
  openCnt :: nat
  fileFirstPage :: int
  filePages :: "Page list"
  hdrImage :: FileHdrPage
  numBufs :: nat
  pinned :: "int list"
  bufLog :: "BufEvent list"
  headerPageNo :: int
  hdrDirtyFlag :: bool
  curPage :: "int option"
  curPageNo :: int
  curDirtyFlag :: bool
  curRec :: RID
  offset :: "32 word"
  length' :: "32 word"
  type :: Datatype
  filter' :: "byte list option"
  op :: Operator
  markedPageNo :: int
  markedRec :: RID

definition pageValid :: "HeapFile \<Rightarrow> int \<Rightarrow> bool" where
  "pageValid s p = (0 \<le> p \<and> p < int (length (filePages s)))"

text \<open>The page a \<^verbatim>\<open>Page*\<close> to frame \<open>p\<close> addresses, and a store through such a pointer.\<close>

definition pageAt :: "HeapFile \<Rightarrow> int \<Rightarrow> Page" where
  "pageAt s p = filePages s ! nat p"

definition setPageAt :: "HeapFile \<Rightarrow> int \<Rightarrow> Page \<Rightarrow> HeapFile" where
  "setPageAt s p pg = s\<lparr>filePages := (filePages s)[nat p := pg]\<rparr>"

definition framesInUse :: "HeapFile \<Rightarrow> nat" where
  "framesInUse s = length (remdups (pinned s))"

text \<open>
  \<^verbatim>\<open>bufMgr->readPage(filePtr, p, page)\<close>: pins page \<open>p\<close>. It fails on a page number
  the file does not have and when a frame is needed and every frame is pinned. The
  caller's pointer is assigned only on success.
\<close>

definition readPage :: "HeapFile \<Rightarrow> int \<Rightarrow> Status \<times> HeapFile" where
  "readPage s p =
     (if \<not> pageValid s p then (BADPAGENO, s\<lparr>bufLog := bufLog s @ [EvRead p BADPAGENO]\<rparr>)
      else if p \<notin> set (pinned s) \<and> numBufs s \<le> framesInUse s
        then (BUFFEREXCEEDED, s\<lparr>bufLog := bufLog s @ [EvRead p BUFFEREXCEEDED]\<rparr>)
      else (OK, s\<lparr>pinned := p # pinned s, bufLog := bufLog s @ [EvRead p OK]\<rparr>))"

definition unPinPage :: "HeapFile \<Rightarrow> int \<Rightarrow> bool \<Rightarrow> Status \<times> HeapFile" where
  "unPinPage s p dirty =
     (if p \<in> set (pinned s)
      then (OK, s\<lparr>pinned := remove1 p (pinned s), bufLog := bufLog s @ [EvUnPin p dirty OK]\<rparr>)
      else (PAGENOTPINNED, s\<lparr>bufLog := bufLog s @ [EvUnPin p dirty PAGENOTPINNED]\<rparr>))"

text \<open>
  \<^verbatim>\<open>bufMgr->allocPage(filePtr, newPageNo, newPage)\<close>: appends a zero-filled page to the
  file and pins it; it needs a free frame.
\<close>

definition allocPage :: "HeapFile \<Rightarrow> Status \<times> int \<times> HeapFile" where
  "allocPage s =
     (let p = int (length (filePages s)) in
      if numBufs s \<le> framesInUse s
        then (BUFFEREXCEEDED, p, s\<lparr>bufLog := bufLog s @ [EvAlloc p BUFFEREXCEEDED]\<rparr>)
      else (OK, p, s\<lparr>filePages := filePages s @ [\<lparr>slot = [], nextPage = 0, pageNum = 0\<rparr>],
                      pinned := p # pinned s,
                      bufLog := bufLog s @ [EvAlloc p OK]\<rparr>))"

text \<open>\<^verbatim>\<open>status = bufMgr->readPage(filePtr, p, curPage)\<close>.\<close>

definition readCurPage :: "HeapFile \<Rightarrow> int \<Rightarrow> Status \<times> HeapFile" where
  "readCurPage s p =
     (case readPage s p of
        (status, s1) \<Rightarrow> (status, if status = OK then s1\<lparr>curPage := Some p\<rparr> else s1))"

section \<open>HeapFile\<close>

text \<open>
  The constructor runs on the storage of the new object, whose members hold whatever
  they held (\<open>this\<close>), and assigns the members it names. \<^verbatim>\<open>db.openFile\<close> succeeds
  when the file exists, \<^verbatim>\<open>filePtr->getFirstPage\<close> gives the header's page number.
\<close>

definition closeFile :: "HeapFile \<Rightarrow> HeapFile" where
  "closeFile s = s\<lparr>openCnt := openCnt s - 1\<rparr>"

definition HeapFile_ctor :: "HeapFile \<Rightarrow> Status \<times> HeapFile" where
  "HeapFile_ctor this =
     (if fileExists this then
        (let s1 = this\<lparr>openCnt := Suc (openCnt this)\<rparr>;
             s2 = s1\<lparr>headerPageNo := fileFirstPage s1\<rparr> in
         case readPage s2 (headerPageNo s2) of (status, s3) \<Rightarrow>
           if status \<noteq> OK then (status, closeFile s3)
           else
             (let s4 = s3\<lparr>hdrDirtyFlag := False\<rparr>;
                  s5 = s4\<lparr>curPageNo := firstPage (hdrImage s4)\<rparr> in
              case readCurPage s5 (curPageNo s5) of (status, s6) \<Rightarrow>
                if status \<noteq> OK then
                  (case unPinPage s6 (headerPageNo s6) (hdrDirtyFlag s6) of
                     (_, s7) \<Rightarrow> (status, closeFile s7))
                else (OK, s6\<lparr>curDirtyFlag := False, curRec := NULLRID\<rparr>)))
      else (UNIXERR, this))"

definition HeapFile_dtor :: "HeapFile \<Rightarrow> HeapFile" where
  "HeapFile_dtor s =
     (let s1 =
            (if curPage s \<noteq> None then
               (case unPinPage s (curPageNo s) (curDirtyFlag s) of
                  (_, s') \<Rightarrow> s'\<lparr>curPage := None, curPageNo := 0, curDirtyFlag := False\<rparr>)
             else s) in
      case unPinPage s1 (headerPageNo s1) (hdrDirtyFlag s1) of
        (_, s2) \<Rightarrow> closeFile s2)"

definition getRecCnt :: "HeapFile \<Rightarrow> int" where
  "getRecCnt s = recCnt (hdrImage s)"

text \<open>
  \<^verbatim>\<open>HeapFile::getRecord(rid, rec)\<close>. The result is \<open>None\<close> when the call dereferences
  a null \<^verbatim>\<open>curPage\<close>, otherwise the status, the record assigned to \<^verbatim>\<open>rec\<close> (if any)
  and the state.
\<close>

definition HeapFile_getRecord ::
    "HeapFile \<Rightarrow> RID \<Rightarrow> (Status \<times> Record option \<times> HeapFile) option" where
  "HeapFile_getRecord s rid =
     (let r =
        (if curPageNo s \<noteq> pageNo rid then
           (case (if curPage s \<noteq> None then unPinPage s (curPageNo s) (curDirtyFlag s)
                  else (OK, s)) of
              (status, s1) \<Rightarrow>
                if curPage s \<noteq> None \<and> status \<noteq> OK
                  then Inl (status, s1\<lparr>curPage := None, curPageNo := 0, curDirtyFlag := False\<rparr>)
                else
                  (case readCurPage s1 (pageNo rid) of (status, s2) \<Rightarrow>
                     if status \<noteq> OK then Inl (status, s2)
                     else Inr (s2\<lparr>curPageNo := pageNo rid, curDirtyFlag := False\<rparr>)))
         else Inr s) in
      case r of
        Inl (status, s') \<Rightarrow> Some (status, None, s')
      | Inr s' \<Rightarrow>
          (case curPage s' of
             None \<Rightarrow> None
           | Some p \<Rightarrow>
               (case Page_getRecord (pageAt s' p) rid of
                  Inl status \<Rightarrow> Some (status, None, s')
                | Inr rec \<Rightarrow> Some (OK, Some rec, s'\<lparr>curRec := rid\<rparr>))))"

section \<open>HeapFileScan\<close>

definition HeapFileScan_ctor :: "HeapFile \<Rightarrow> Status \<times> HeapFile" where
  "HeapFileScan_ctor this =
     (case HeapFile_ctor this of (status, s) \<Rightarrow> (status, s\<lparr>filter' := None\<rparr>))"

definition sizeof_int :: "32 word" where
  "sizeof_int = 4"

definition sizeof_float :: "32 word" where
  "sizeof_float = 4"

text \<open>
  \<^verbatim>\<open>startScan(offset_, length_, type_, filter_, op_)\<close>; \<open>filter_\<close> is \<open>None\<close> for a null
  pointer, otherwise the bytes it points to.
\<close>

definition startScan ::
    "HeapFile \<Rightarrow> 32 word \<Rightarrow> 32 word \<Rightarrow> Datatype \<Rightarrow> byte list option \<Rightarrow> Operator
      \<Rightarrow> Status \<times> HeapFile" where
  "startScan s offset_a length_a type_a filter_a op_a =
     (if filter_a = None then (OK, s\<lparr>filter' := None\<rparr>)
      else if (sint offset_a < 0 \<or> sint length_a < 1)
            \<or> (type_a \<noteq> STRING \<and> type_a \<noteq> INTEGER \<and> type_a \<noteq> FLOAT)
            \<or> (type_a = INTEGER \<and> length_a \<noteq> sizeof_int
                \<or> type_a = FLOAT \<and> length_a \<noteq> sizeof_float)
            \<or> (op_a \<noteq> LT \<and> op_a \<noteq> LTE \<and> op_a \<noteq> EQ \<and> op_a \<noteq> GTE \<and> op_a \<noteq> GT \<and> op_a \<noteq> NE)
        then (BADSCANPARM, s)
      else (OK, s\<lparr>offset := offset_a, length' := length_a, type := type_a,
                  filter' := filter_a, op := op_a\<rparr>))"

definition endScan :: "HeapFile \<Rightarrow> Status \<times> HeapFile" where
  "endScan s =
     (if curPage s \<noteq> None then
        (case unPinPage s (curPageNo s) (curDirtyFlag s) of
           (status, s1) \<Rightarrow> (status, s1\<lparr>curPage := None, curPageNo := 0, curDirtyFlag := False\<rparr>))
      else (OK, s))"

definition HeapFileScan_dtor :: "HeapFile \<Rightarrow> HeapFile" where
  "HeapFileScan_dtor s = HeapFile_dtor (snd (endScan s))"

definition markScan :: "HeapFile \<Rightarrow> Status \<times> HeapFile" where
  "markScan s = (OK, s\<lparr>markedPageNo := curPageNo s, markedRec := curRec s\<rparr>)"

definition resetScan :: "HeapFile \<Rightarrow> Status \<times> HeapFile" where
  "resetScan s =
     (if markedPageNo s \<noteq> curPageNo s then
        (case (if curPage s \<noteq> None then unPinPage s (curPageNo s) (curDirtyFlag s)
               else (OK, s)) of
           (status, s1) \<Rightarrow>
             if curPage s \<noteq> None \<and> status \<noteq> OK then (status, s1)
             else
               (let s2 = s1\<lparr>curPageNo := markedPageNo s1, curRec := markedRec s1\<rparr> in
                case readCurPage s2 (curPageNo s2) of (status, s3) \<Rightarrow>
                  if status \<noteq> OK then (status, s3)
                  else (OK, s3\<lparr>curDirtyFlag := False\<rparr>)))
      else (OK, s\<lparr>curRec := markedRec s\<rparr>))"

subsection \<open>Predicate evaluation\<close>

text \<open>
  \<^verbatim>\<open>matchRec\<close> computes a \<^verbatim>\<open>float diff\<close> and compares it with \<open>0.0\<close>. All that the
  comparisons see of \<open>diff\<close> is whether it is negative, zero, positive or not a
  number, so that is what the model keeps of it. Converting an \<^verbatim>\<open>int\<close> to \<^verbatim>\<open>float\<close>
  keeps its sign.
\<close>

datatype fsgn = Neg | Zero | Pos | NotANumber

definition fsgn_of_int :: "int \<Rightarrow> fsgn" where
  "fsgn_of_int i = (if i < 0 then Neg else if i = 0 then Zero else Pos)"

fun cmpOp :: "Operator \<Rightarrow> fsgn \<Rightarrow> bool" where
  "cmpOp LT diff = (diff = Neg)"
| "cmpOp LTE diff = (diff = Neg \<or> diff = Zero)"
| "cmpOp EQ diff = (diff = Zero)"
| "cmpOp GTE diff = (diff = Pos \<or> diff = Zero)"
| "cmpOp GT diff = (diff = Pos)"
| "cmpOp NE diff = (diff \<noteq> Zero)"
| "cmpOp (OperatorOther v) diff = False"

text \<open>
  Memory behind a pointer is a byte list, and \<^verbatim>\<open>int\<close> arithmetic wraps at 32 bits, as
  it does in the compiled program. A read outside the list is a read outside the
  object the pointer points into, for which C defines no result: it is \<open>None\<close>.
  \<^verbatim>\<open>memcpy\<close> of four bytes, the size of an \<^verbatim>\<open>int\<close> and of a \<^verbatim>\<open>float\<close>, takes them least
  significant first; \<open>i\<close> is the offset added to the pointer.
\<close>

definition memcpy_int :: "byte list \<Rightarrow> int \<Rightarrow> 32 word option" where
  "memcpy_int m i =
     (if 0 \<le> i \<and> i + 4 \<le> int (length m) then
        Some (of_nat (unat (m ! nat i) + 2 ^ 8 * unat (m ! (nat i + 1))
                      + 2 ^ 16 * unat (m ! (nat i + 2)) + 2 ^ 24 * unat (m ! (nat i + 3))))
      else None)"

text \<open>
  A \<^verbatim>\<open>float\<close> is the IEEE 754 binary32 value of its four bytes: not a number, an
  infinity with its sign (\<open>True\<close> for negative), or a finite value, kept as the
  integer multiple of \<open>2^-149\<close> that it is. The difference of two floats, rounded to
  nearest with gradual underflow, has the sign of the exact difference, and the
  difference of two equal infinities is not a number.
\<close>

datatype cfloat = FNaN | FInf bool | FFin int

definition float_of_bits :: "32 word \<Rightarrow> cfloat" where
  "float_of_bits w =
     (let u = unat w;
          neg = (2 ^ 31 \<le> u);
          e = (u div 2 ^ 23) mod 256;
          m = u mod 2 ^ 23 in
      if e = 255 then (if m = 0 then FInf neg else FNaN)
      else
        (let v = (if e = 0 then int m else int ((2 ^ 23 + m) * 2 ^ (e - 1))) in
         FFin (if neg then - v else v)))"

fun float_diff :: "cfloat \<Rightarrow> cfloat \<Rightarrow> fsgn" where
  "float_diff FNaN y = NotANumber"
| "float_diff x FNaN = NotANumber"
| "float_diff (FInf a) (FInf b) = (if a = b then NotANumber else if a then Neg else Pos)"
| "float_diff (FInf a) (FFin y) = (if a then Neg else Pos)"
| "float_diff (FFin x) (FInf b) = (if b then Pos else Neg)"
| "float_diff (FFin x) (FFin y) = fsgn_of_int (x - y)"

text \<open>
  \<^verbatim>\<open>strncmp\<close>: bytes compare as unsigned chars, up to \<open>n\<close> of them or a NUL; \<open>None\<close> when
  it has to read past the end of one of the two arrays.
\<close>

fun strncmp :: "byte list \<Rightarrow> byte list \<Rightarrow> nat \<Rightarrow> int option" where
  "strncmp s1 s2 0 = Some 0"
| "strncmp (c1 # s1) (c2 # s2) (Suc n) =
     (if c1 \<noteq> c2 then Some (int (unat c1) - int (unat c2))
      else if c1 = 0 then Some 0
      else strncmp s1 s2 n)"
| "strncmp s1 s2 (Suc n) = None"

text \<open>
  \<^verbatim>\<open>matchRec(rec)\<close>: \<open>Some\<close> of what it returns, or \<open>None\<close> when it reads outside the
  record or outside the filter value. The sum \<^verbatim>\<open>offset + length\<close> is the 32-bit sum,
  \<^verbatim>\<open>rec.data + offset\<close> must point into the record (or just past it), and \<^verbatim>\<open>length\<close>
  becomes the \<^verbatim>\<open>size_t\<close> argument of \<^verbatim>\<open>strncmp\<close> (a negative one a count of at least
  \<open>2^31\<close>).
\<close>

definition matchRec :: "HeapFile \<Rightarrow> Record \<Rightarrow> bool option" where
  "matchRec s rec =
     (case filter' s of
        None \<Rightarrow> Some True
      | Some flt \<Rightarrow>
          if int (length rec) < sint (offset s + length' s) then Some False
          else
            map_option (cmpOp (op s))
              (case type s of
                 INTEGER \<Rightarrow>
                   Option.bind (memcpy_int rec (sint (offset s))) (\<lambda>iattr.
                   Option.bind (memcpy_int flt 0) (\<lambda>ifltr.
                     Some (fsgn_of_int (sint (iattr - ifltr)))))
               | FLOAT \<Rightarrow>
                   Option.bind (memcpy_int rec (sint (offset s))) (\<lambda>fattr.
                   Option.bind (memcpy_int flt 0) (\<lambda>ffltr.
                     Some (float_diff (float_of_bits fattr) (float_of_bits ffltr))))
               | STRING \<Rightarrow>
                   if 0 \<le> sint (offset s) \<and> sint (offset s) \<le> int (length rec) then
                     map_option fsgn_of_int
                       (strncmp (drop (nat (sint (offset s))) rec) flt (unat (length' s)))
                   else None
               | DatatypeOther v \<Rightarrow> Some Zero))"

subsection \<open>scanNext\<close>

text \<open>
  One pass through the body of the \<^verbatim>\<open>while (true)\<close> loop of \<^verbatim>\<open>scanNext\<close> ends in a
  \<^verbatim>\<open>return\<close>, or goes round again; \<open>Fault\<close> stands for a pass for which C defines no
  behaviour: it dereferences a null \<^verbatim>\<open>curPage\<close>, or \<^verbatim>\<open>matchRec\<close> reads outside a buffer.
  \<open>getAndMatch\<close> is the block "get the record, see if it matches the predicate" that
  the function has three times; \<open>p\<close> is the page \<^verbatim>\<open>curPage\<close> points to.
\<close>

datatype ScanStep = Return Status "RID option" HeapFile | Continue HeapFile | Fault

definition getAndMatch :: "HeapFile \<Rightarrow> int \<Rightarrow> ScanStep" where
  "getAndMatch s p =
     (case Page_getRecord (pageAt s p) (curRec s) of
        Inl status \<Rightarrow> Return status None s
      | Inr rec \<Rightarrow>
          (case matchRec s rec of
             None \<Rightarrow> Fault
           | Some matches \<Rightarrow>
               if matches then Return OK (Some (curRec s)) s else Continue s))"

definition scanStep :: "HeapFile \<Rightarrow> ScanStep" where
  "scanStep s =
     (case curPage s of
        None \<Rightarrow> Fault
      | Some p \<Rightarrow>
          (case Page_nextRecord (pageAt s p) (curRec s) of
             Inr nextRid \<Rightarrow> getAndMatch (s\<lparr>curRec := nextRid\<rparr>) p
           | Inl status \<Rightarrow>
               if status = ENDOFPAGE \<or> status = NORECORDS then
                 (case Page_getNextPage (pageAt s p) of
                    Inl status \<Rightarrow> Return status None s
                  | Inr nextPageNo \<Rightarrow>
                      if nextPageNo = -1 then Return FILEEOF None s
                      else
                        (case unPinPage s (curPageNo s) (curDirtyFlag s) of (_, s1) \<Rightarrow>
                           (let s2 = s1\<lparr>curPage := None\<rparr>;
                                s3 = s2\<lparr>curPageNo := nextPageNo\<rparr> in
                            case readCurPage s3 (curPageNo s3) of (status, s4) \<Rightarrow>
                              if status \<noteq> OK then Return status None s4
                              else
                                (let s5 = s4\<lparr>curDirtyFlag := False, curRec := NULLRID\<rparr> in
                                 case Page_firstRecord (pageAt s5 nextPageNo) of
                                   Inl status \<Rightarrow>
                                     if status = NORECORDS then Continue s5
                                     else getAndMatch s5 nextPageNo
                                 | Inr firstRid \<Rightarrow>
                                     getAndMatch (s5\<lparr>curRec := firstRid\<rparr>) nextPageNo))))
               else Return status None s))"

text \<open>
  The loop may run forever (a page chain that closes on itself), so it is a partial
  function: \<open>None\<close> is a call that returns nothing.
\<close>

partial_function (option) scanLoop :: "HeapFile \<Rightarrow> (Status \<times> RID option \<times> HeapFile) option" where
  "scanLoop s =
     (case scanStep s of
        Return status outRid s' \<Rightarrow> Some (status, outRid, s')
      | Continue s' \<Rightarrow> scanLoop s'
      | Fault \<Rightarrow> None)"

declare scanLoop.simps [code]

text \<open>
  \<^verbatim>\<open>scanNext(outRid)\<close>: the status, the RID assigned to \<^verbatim>\<open>outRid\<close> (if any) and the
  state.
\<close>

definition scanNext :: "HeapFile \<Rightarrow> (Status \<times> RID option \<times> HeapFile) option" where
  "scanNext s =
     (if curPageNo s < 0 then Some (FILEEOF, None, s)
      else if curPage s = None then
        (let s1 = s\<lparr>curPageNo := firstPage (hdrImage s)\<rparr> in
         if curPageNo s1 = -1 then Some (FILEEOF, None, s1)
         else
           (case readCurPage s1 (curPageNo s1) of (status, s2) \<Rightarrow>
              if status \<noteq> OK then Some (status, None, s2)
              else
                (let s3 = s2\<lparr>curDirtyFlag := False, curRec := NULLRID\<rparr>;
                     p = curPageNo s1;
                     first = Page_firstRecord (pageAt s3 p);
                     s4 = (case first of Inl _ \<Rightarrow> s3 | Inr firstRid \<Rightarrow> s3\<lparr>curRec := firstRid\<rparr>) in
                 if statusOf first = NORECORDS then
                   (case unPinPage s4 (curPageNo s4) (curDirtyFlag s4) of (_, s5) \<Rightarrow>
                      Some (FILEEOF, None, s5\<lparr>curPageNo := -1, curPage := None\<rparr>))
                 else
                   (case getAndMatch s4 p of
                      Return status outRid s' \<Rightarrow> Some (status, outRid, s')
                    | Continue s' \<Rightarrow> scanLoop s'
                    | Fault \<Rightarrow> None))))
      else scanLoop s)"

text \<open>
  \<^verbatim>\<open>HeapFileScan::getRecord(rec)\<close> and \<^verbatim>\<open>deleteRecord()\<close> go through \<^verbatim>\<open>curPage\<close>
  unchecked: the result is \<open>None\<close> when it is null.
\<close>

definition HeapFileScan_getRecord :: "HeapFile \<Rightarrow> (Status \<times> Record option) option" where
  "HeapFileScan_getRecord s =
     (case curPage s of
        None \<Rightarrow> None
      | Some p \<Rightarrow>
          (let r = Page_getRecord (pageAt s p) (curRec s) in Some (statusOf r, valueOf r)))"

definition deleteRecord :: "HeapFile \<Rightarrow> (Status \<times> HeapFile) option" where
  "deleteRecord s =
     (case curPage s of
        None \<Rightarrow> None
      | Some p \<Rightarrow>
          (let r = Page_deleteRecord (pageAt s p) (curRec s);
               s1 = (case r of Inl _ \<Rightarrow> s | Inr pg \<Rightarrow> setPageAt s p pg);
               s2 = s1\<lparr>curDirtyFlag := True\<rparr>;
               s3 = s2\<lparr>hdrImage := (hdrImage s2)\<lparr>recCnt := recCnt (hdrImage s2) - 1\<rparr>\<rparr>;
               s4 = s3\<lparr>hdrDirtyFlag := True\<rparr> in
           Some (statusOf r, s4)))"

definition markDirty :: "HeapFile \<Rightarrow> Status \<times> HeapFile" where
  "markDirty s = (OK, s\<lparr>curDirtyFlag := True\<rparr>)"

section \<open>InsertFileScan\<close>

definition InsertFileScan_ctor :: "HeapFile \<Rightarrow> Status \<times> HeapFile" where
  "InsertFileScan_ctor this = HeapFile_ctor this"

definition InsertFileScan_dtor :: "HeapFile \<Rightarrow> HeapFile" where
  "InsertFileScan_dtor s =
     HeapFile_dtor
       (if curPage s \<noteq> None then
          (case unPinPage s (curPageNo s) True of
             (_, s1) \<Rightarrow> s1\<lparr>curPage := None, curPageNo := 0\<rparr>)
        else s)"

definition bumpRecCnt :: "HeapFile \<Rightarrow> HeapFile" where
  "bumpRecCnt s = s\<lparr>hdrImage := (hdrImage s)\<lparr>recCnt := recCnt (hdrImage s) + 1\<rparr>\<rparr>"

text \<open>
  \<^verbatim>\<open>insertRecord\<close> from "try to add the record onto the current page" on, where
  \<^verbatim>\<open>curPage\<close> points to page \<open>p\<close>.
\<close>

definition insertCur :: "HeapFile \<Rightarrow> int \<Rightarrow> Record \<Rightarrow> Status \<times> RID option \<times> HeapFile" where
  "insertCur s p rec =
     (case Page_insertRecord (pageAt s p) rec of
        Inr (rid, pg) \<Rightarrow>
          (OK, Some rid, (bumpRecCnt (setPageAt s p pg))\<lparr>hdrDirtyFlag := True, curDirtyFlag := True\<rparr>)
      | Inl status \<Rightarrow>
          if status = NOSPACE then
            (case allocPage s of (status, newPageNo, s1) \<Rightarrow>
               if status \<noteq> OK then (status, None, s1)
               else
                 (let s2 = setPageAt s1 newPageNo (Page_init newPageNo) in
                  case Page_setNextPage (pageAt s2 newPageNo) (-1) of
                    Inl status \<Rightarrow>
                      (case unPinPage s2 newPageNo True of (_, s3) \<Rightarrow> (status, None, s3))
                  | Inr newPg \<Rightarrow>
                      (let s3 = setPageAt s2 newPageNo newPg in
                       case Page_setNextPage (pageAt s3 p) newPageNo of
                         Inl status \<Rightarrow>
                           (case unPinPage s3 newPageNo True of (_, s4) \<Rightarrow> (status, None, s4))
                       | Inr curPg \<Rightarrow>
                           (let s4 = setPageAt s3 p curPg;
                                s5 = s4\<lparr>hdrImage := (hdrImage s4)\<lparr>lastPage := newPageNo\<rparr>\<rparr>;
                                s6 = s5\<lparr>hdrImage :=
                                         (hdrImage s5)\<lparr>pageCnt := pageCnt (hdrImage s5) + 1\<rparr>\<rparr>;
                                s7 = s6\<lparr>hdrDirtyFlag := True\<rparr> in
                            case unPinPage s7 (curPageNo s7) (curDirtyFlag s7) of (status, s8) \<Rightarrow>
                              if status \<noteq> OK then
                                (case unPinPage s8 newPageNo True of (_, s9) \<Rightarrow> (status, None, s9))
                              else
                                (let s9 = s8\<lparr>curPage := Some newPageNo, curPageNo := newPageNo,
                                             curDirtyFlag := True\<rparr> in
                                 case Page_insertRecord (pageAt s9 newPageNo) rec of
                                   Inr (rid, pg) \<Rightarrow>
                                     (OK, Some rid, bumpRecCnt (setPageAt s9 newPageNo pg))
                                 | Inl status \<Rightarrow> (status, None, s9))))))
          else (status, None, s))"

definition insertRecord :: "HeapFile \<Rightarrow> Record \<Rightarrow> Status \<times> RID option \<times> HeapFile" where
  "insertRecord s rec =
     (if PAGESIZE - DPFIXED < length rec then (INVALIDRECLEN, None, s)
      else
        (case curPage s of
           None \<Rightarrow>
             (let s1 = s\<lparr>curPageNo := lastPage (hdrImage s)\<rparr> in
              case readCurPage s1 (curPageNo s1) of (status, s2) \<Rightarrow>
                if status \<noteq> OK then (status, None, s2)
                else insertCur (s2\<lparr>curDirtyFlag := False\<rparr>) (curPageNo s1) rec)
         | Some p \<Rightarrow> insertCur s p rec))"

section \<open>What the spec's words say\<close>

text \<open>
  The spec has the comparator applied to the stored value and the filter value,
  through the sign of their difference: \<open>holds cmp a b\<close> says that \<open>a cmp b\<close> is true
  in the order of the values, which are numbers, or byte strings in lexicographic
  order.
\<close>

fun holds :: "Operator \<Rightarrow> 'a::linorder \<Rightarrow> 'a \<Rightarrow> bool" where
  "holds LT a b = (a < b)"
| "holds LTE a b = (a \<le> b)"
| "holds EQ a b = (a = b)"
| "holds GTE a b = (b \<le> a)"
| "holds GT a b = (b < a)"
| "holds NE a b = (a \<noteq> b)"
| "holds (OperatorOther v) a b = False"

text \<open>
  The values are read as raw bytes. \<open>bytesLE\<close> is the number that a byte string
  holds, least significant byte first; \<open>bitsAt m i\<close> is that of the four bytes at
  offset \<open>i\<close>, and \<open>intAt m i\<close> the \<^verbatim>\<open>int\<close> they are in two's complement.
\<close>

primrec bytesLE :: "byte list \<Rightarrow> nat" where
  "bytesLE [] = 0"
| "bytesLE (b # bs) = unat b + 256 * bytesLE bs"

definition bitsAt :: "byte list \<Rightarrow> int \<Rightarrow> nat" where
  "bitsAt m i = bytesLE (take 4 (drop (nat i) m))"

definition intAt :: "byte list \<Rightarrow> int \<Rightarrow> int" where
  "intAt m i = (if bitsAt m i < 2 ^ 31 then int (bitsAt m i) else int (bitsAt m i) - 2 ^ 32)"

text \<open>
  As a \<^verbatim>\<open>float\<close>, the 32 bits are a sign, an exponent of 8 bits and a fraction of 23
  bits (IEEE 754 binary32): the number \<open>(1 + fraction / 2^23) * 2^(exponent - 127)\<close>,
  or \<open>(fraction / 2^23) * 2^-126\<close> when the exponent field is 0, with its sign; when
  the exponent field is 255, an infinity if the fraction is 0 and otherwise not a
  number.
\<close>

definition b32_negative :: "nat \<Rightarrow> bool" where
  "b32_negative u = (2 ^ 31 \<le> u)"

definition b32_exponent :: "nat \<Rightarrow> nat" where
  "b32_exponent u = (u div 2 ^ 23) mod 256"

definition b32_fraction :: "nat \<Rightarrow> nat" where
  "b32_fraction u = u mod 2 ^ 23"

definition b32_finite :: "nat \<Rightarrow> bool" where
  "b32_finite u = (b32_exponent u \<noteq> 255)"

definition b32_inf :: "nat \<Rightarrow> bool" where
  "b32_inf u = (b32_exponent u = 255 \<and> b32_fraction u = 0)"

definition b32_nan :: "nat \<Rightarrow> bool" where
  "b32_nan u = (b32_exponent u = 255 \<and> b32_fraction u \<noteq> 0)"

definition b32_value :: "nat \<Rightarrow> real" where
  "b32_value u =
     (if b32_negative u then - 1 else 1) *
     (if b32_exponent u = 0 then real (b32_fraction u) / 2 ^ 23 / 2 ^ 126
      else (1 + real (b32_fraction u) / 2 ^ 23) * 2 ^ b32_exponent u / 2 ^ 127)"

text \<open>
  The spec calls the \<^verbatim>\<open>STRING\<close> comparison a length-bounded lexicographic byte
  comparison. \<open>cstr n xs\<close> is the C string that at most \<open>n\<close> bytes of \<open>xs\<close> hold: the
  bytes before the first NUL among them.
\<close>

definition cstr :: "nat \<Rightarrow> byte list \<Rightarrow> byte list" where
  "cstr n xs = takeWhile (\<lambda>c. c \<noteq> 0) (take n xs)"

section \<open>Example files\<close>

text \<open>
  Concrete files for the instances below. Page 0 belongs to the file layer, page 1 is
  the header page, the data pages start at 2; the pool has three frames, and the
  storage of the handle is zeroed before its constructor runs.
\<close>

definition exPage :: "int \<Rightarrow> Record option list \<Rightarrow> int \<Rightarrow> Page" where
  "exPage n sl nx = \<lparr>slot = sl, nextPage = nx, pageNum = n\<rparr>"

definition exHdr :: "int \<Rightarrow> int \<Rightarrow> int \<Rightarrow> int \<Rightarrow> FileHdrPage" where
  "exHdr f l pc rc =
     \<lparr>fileName = ''rel'', firstPage = f, lastPage = l, pageCnt = pc, recCnt = rc\<rparr>"

definition exRaw :: "Page list \<Rightarrow> FileHdrPage \<Rightarrow> HeapFile" where
  "exRaw pgs hdr =
     \<lparr>fileExists = True, openCnt = 0, fileFirstPage = 1, filePages = pgs, hdrImage = hdr,
      numBufs = 3, pinned = [], bufLog = [],
      headerPageNo = 0, hdrDirtyFlag = False, curPage = None, curPageNo = 0,
      curDirtyFlag = False, curRec = NULLRID,
      offset = 0, length' = 0, type = STRING, filter' = None, op = LT,
      markedPageNo = 0, markedRec = NULLRID\<rparr>"

text \<open>One data page with the records \<open>5\<close> and \<open>3\<close> (as four-byte integers).\<close>

definition exFile1 :: HeapFile where
  "exFile1 = exRaw [exPage 0 [] 0, exPage 1 [] 0,
                    exPage 2 [Some [5, 0, 0, 0], Some [3, 0, 0, 0]] (-1)] (exHdr 2 2 1 2)"

text \<open>A scan opened on it, and the same scan with an integer filter at offset 0.\<close>

definition exScan1 :: HeapFile where
  "exScan1 = snd (HeapFileScan_ctor exFile1)"

definition exFiltered :: "byte \<Rightarrow> Operator \<Rightarrow> HeapFile" where
  "exFiltered v cmp = snd (startScan exScan1 0 4 INTEGER (Some [v, 0, 0, 0]) cmp)"

text \<open>The same scan with any filter.\<close>

definition exFilter :: "Datatype \<Rightarrow> 32 word \<Rightarrow> 32 word \<Rightarrow> byte list \<Rightarrow> Operator \<Rightarrow> HeapFile" where
  "exFilter ty off len flt cmp = snd (startScan exScan1 off len ty (Some flt) cmp)"


text \<open>The scan after \<^verbatim>\<open>endScan\<close>, and the scan after its first \<^verbatim>\<open>scanNext\<close>.\<close>

definition exEnded :: HeapFile where
  "exEnded = snd (endScan exScan1)"

definition exAtFirst :: HeapFile where
  "exAtFirst = (case scanNext exScan1 of Some (_, _, s) \<Rightarrow> s | None \<Rightarrow> exScan1)"

section \<open>A full scan, in the spec's words\<close>



text \<open>
  What the spec expects of it. \<open>chainFrom pgs p qs\<close>: following the forward links
  from page \<open>p\<close> visits the pages \<open>qs\<close>, all of them pages of the file, and then
  reaches the terminator. \<open>liveSlots pg i\<close>: the occupied slots of a page from slot
  \<open>i\<close> on, in slot order. \<open>ridsOfPages\<close>: the RIDs of all records of the pages \<open>qs\<close>,
  page by page.
\<close>

fun chainFrom :: "Page list \<Rightarrow> int \<Rightarrow> int list \<Rightarrow> bool" where
  "chainFrom pgs p [] = (p = -1)"
| "chainFrom pgs p (q # qs) =
     (p = q \<and> 0 \<le> p \<and> p < int (length pgs) \<and> chainFrom pgs (nextPage (pgs ! nat p)) qs)"







text \<open>The handle a successful constructor leaves: header and first data page pinned.\<close>

definition opened :: "HeapFile \<Rightarrow> HeapFile" where
  "opened this =
     this\<lparr>openCnt := Suc (openCnt this),
          headerPageNo := fileFirstPage this,
          pinned := firstPage (hdrImage this) # fileFirstPage this # pinned this,
          bufLog := bufLog this @ [EvRead (fileFirstPage this) OK,
                                   EvRead (firstPage (hdrImage this)) OK],
          hdrDirtyFlag := False,
          curPageNo := firstPage (hdrImage this),
          curPage := Some (firstPage (hdrImage this)),
          curDirtyFlag := False,
          curRec := NULLRID\<rparr>"

text \<open>
  Three data pages, chained 2, 3, 4; page 3 is empty. Slot 1 of page 2 is empty
  too.
\<close>

definition exFile3 :: HeapFile where
  "exFile3 = exRaw [exPage 0 [] 0, exPage 1 [] 0,
                    exPage 2 [Some [5, 0, 0, 0], None, Some [3, 0, 0, 0]] 3,
                    exPage 3 [] 4,
                    exPage 4 [Some [7, 0, 0, 0]] (-1)] (exHdr 2 4 3 3)"

text \<open>
  The state after \<open>n\<close> calls of \<^verbatim>\<open>scanNext\<close>, whatever they returned (\<open>None\<close> when
  one of them does not return).
\<close>

fun scanNextTimes :: "nat \<Rightarrow> HeapFile \<Rightarrow> HeapFile option" where
  "scanNextTimes 0 s = Some s"
| "scanNextTimes (Suc n) s = Option.bind (scanNext s) (\<lambda>(_, _, s'). scanNextTimes n s')"

text \<open>The scan on the one-page file after two calls of \<^verbatim>\<open>scanNext\<close>: on its last record.\<close>

definition exAtLast :: HeapFile where
  "exAtLast = (case scanNextTimes 2 exScan1 of Some s \<Rightarrow> s | None \<Rightarrow> exScan1)"


text \<open>
  A scan opened on the three-page file, and the same scan after two calls of
  \<^verbatim>\<open>scanNext\<close>: on the last record of page 2.
\<close>

definition exScan3 :: HeapFile where
  "exScan3 = snd (HeapFileScan_ctor exFile3)"

definition exAtPageEnd :: HeapFile where
  "exAtPageEnd = (case scanNextTimes 2 exScan3 of Some s \<Rightarrow> s | None \<Rightarrow> exScan3)"

text \<open>The state in which a pass of the scan loop ends, if it ends in one.\<close>

definition stepState :: "ScanStep \<Rightarrow> HeapFile option" where
  "stepState r =
     (case r of Return status outRid s' \<Rightarrow> Some s' | Continue s' \<Rightarrow> Some s' | Fault \<Rightarrow> None)"


definition exFileTwo :: HeapFile where
  "exFileTwo = exRaw [exPage 0 [] 0, exPage 1 [] 0,
                      exPage 2 [Some (replicate 500 0)] 3,
                      exPage 3 [Some [1, 2, 3]] (-1)] (exHdr 2 3 2 2)"


definition exInsTwo :: HeapFile where
  "exInsTwo = snd (InsertFileScan_ctor exFileTwo)"

subsection \<open>Mark and reset\<close>

text \<open>
  What a call of \<^verbatim>\<open>scanNext\<close> reads of the state: the cursor, the pins and the size of
  the pool, the pages and the header, and the filter. Two passes of the scan loop
  are related by \<open>stepRel\<close> when they end alike, in states with the same such view.
\<close>

definition scanView :: "HeapFile \<Rightarrow>
    (int option \<times> int \<times> RID \<times> int list \<times> nat) \<times> (Page list \<times> FileHdrPage) \<times>
    (32 word \<times> 32 word \<times> Datatype \<times> byte list option \<times> Operator)" where
  "scanView s = ((curPage s, curPageNo s, curRec s, pinned s, numBufs s),
                 (filePages s, hdrImage s),
                 (offset s, length' s, type s, filter' s, op s))"

fun stepRel :: "ScanStep \<Rightarrow> ScanStep \<Rightarrow> bool" where
  "stepRel (Return st r a) (Return st' r' b) = (st = st' \<and> r = r' \<and> scanView a = scanView b)"
| "stepRel (Continue a) (Continue b) = (scanView a = scanView b)"
| "stepRel Fault Fault = True"
| "stepRel _ _ = False"

text \<open>
  \<open>onPage rest t\<close>: the scan is on a page, that is, \<^verbatim>\<open>curPage\<close> points to page
  \<^verbatim>\<open>curPageNo\<close>, a page of the file, which was pinned last, over the pins \<open>rest\<close>, and
  the pool has a frame for each of these pins. \<open>noPage rest t\<close>: the scan holds no
  data page (as after \<^verbatim>\<open>endScan\<close>). \<open>offPage rest t\<close>: it holds none, and \<^verbatim>\<open>curPageNo\<close> is
  not a page of the file (as after \<^verbatim>\<open>scanNext\<close> has failed to read a page, or has
  found the first page empty). \<open>scanFixed\<close>: what no call of \<^verbatim>\<open>scanNext\<close> changes.
\<close>

definition onPage :: "int list \<Rightarrow> HeapFile \<Rightarrow> bool" where
  "onPage rest t =
     (curPage t = Some (curPageNo t) \<and> pageValid t (curPageNo t)
      \<and> pinned t = curPageNo t # rest \<and> length rest < numBufs t)"

definition noPage :: "int list \<Rightarrow> HeapFile \<Rightarrow> bool" where
  "noPage rest t = (curPage t = None \<and> pinned t = rest \<and> length rest < numBufs t)"

definition offPage :: "int list \<Rightarrow> HeapFile \<Rightarrow> bool" where
  "offPage rest t =
     (curPage t = None \<and> \<not> pageValid t (curPageNo t)
      \<and> pinned t = rest \<and> length rest < numBufs t)"

definition scanFixed :: "HeapFile \<Rightarrow>
    (Page list \<times> FileHdrPage \<times> nat) \<times>
    (32 word \<times> 32 word \<times> Datatype \<times> byte list option \<times> Operator) \<times> int \<times> RID" where
  "scanFixed s = ((filePages s, hdrImage s, numBufs s),
                  (offset s, length' s, type s, filter' s, op s),
                  markedPageNo s, markedRec s)"

text \<open>
  On the three-page file: the scan marked on the last record of page 2 and moved by
  one call of \<^verbatim>\<open>scanNext\<close>, to page 4; and the scan marked where the constructor left
  it and moved by two calls, to the last record of the same page 2.
\<close>

definition exOtherPage :: HeapFile where
  "exOtherPage = (case scanNextTimes 1 (snd (markScan exAtPageEnd)) of
                    Some s \<Rightarrow> s | None \<Rightarrow> exAtPageEnd)"

definition exSamePage :: HeapFile where
  "exSamePage = (case scanNextTimes 2 (snd (markScan exScan3)) of
                   Some s \<Rightarrow> s | None \<Rightarrow> exScan3)"

subsection \<open>Scans that start again\<close>

text \<open>
  Two data pages chained 2, 3, of which the first is empty and the second holds a
  record; a scan opened on this file; the same scan ended with \<^verbatim>\<open>endScan\<close> and begun
  again with \<^verbatim>\<open>startScan\<close> on a null filter; and that scan after its first \<^verbatim>\<open>scanNext\<close>.
\<close>

definition exFileEmptyFirst :: HeapFile where
  "exFileEmptyFirst = exRaw [exPage 0 [] 0, exPage 1 [] 0,
                             exPage 2 [] 3,
                             exPage 3 [Some [7, 0, 0, 0]] (-1)] (exHdr 2 3 2 1)"

definition exScanE :: HeapFile where
  "exScanE = snd (HeapFileScan_ctor exFileEmptyFirst)"

definition exRestarted :: HeapFile where
  "exRestarted = snd (startScan (snd (endScan exScanE)) 0 0 STRING None LT)"

definition exExhausted :: HeapFile where
  "exExhausted = (case scanNext exRestarted of Some (_, _, s) \<Rightarrow> s | None \<Rightarrow> exRestarted)"

text \<open>
  The scan on the three-page file, ended and begun again in the same way; and that
  scan marked there and moved by one call of \<^verbatim>\<open>scanNext\<close>.
\<close>

definition exRestarted3 :: HeapFile where
  "exRestarted3 = snd (startScan (snd (endScan exScan3)) 0 0 STRING None LT)"

definition exMovedFromStart :: HeapFile where
  "exMovedFromStart = (case scanNextTimes 1 (snd (markScan exRestarted3)) of
                         Some s \<Rightarrow> s | None \<Rightarrow> exRestarted3)"

section \<open>Properties\<close>

lemmas ex_defs = exPage_def exHdr_def exRaw_def exFile1_def exScan1_def exFiltered_def

lemmas buf_defs = readPage_def unPinPage_def allocPage_def readCurPage_def pageValid_def
  framesInUse_def closeFile_def

lemmas page_defs = Page_firstRecord_def Page_nextRecord_def Page_getRecord_def
  Page_deleteRecord_def Page_getNextPage_def Page_setNextPage_def Page_init_def
  nextLive_def ridOf_def pageAt_def setPageAt_def statusOf_def valueOf_def

lemmas ctor_defs = HeapFileScan_ctor_def HeapFile_ctor_def InsertFileScan_ctor_def
  NULLRID_def Let_def

subsection \<open>startScan\<close>

lemma startScan_cases:
  "startScan s offset_a length_a type_a filter_a op_a = (OK, s\<lparr>filter' := None\<rparr>)
     \<and> filter_a = None
   \<or> startScan s offset_a length_a type_a filter_a op_a = (BADSCANPARM, s)
     \<and> filter_a \<noteq> None
   \<or> startScan s offset_a length_a type_a filter_a op_a =
       (OK, s\<lparr>offset := offset_a, length' := length_a, type := type_a,
                  filter' := filter_a, op := op_a\<rparr>)
     \<and> filter_a \<noteq> None"
proof -
  define bad where "bad \<longleftrightarrow>
    (sint offset_a < 0 \<or> sint length_a < 1)
    \<or> (type_a \<noteq> STRING \<and> type_a \<noteq> INTEGER \<and> type_a \<noteq> FLOAT)
    \<or> (type_a = INTEGER \<and> length_a \<noteq> sizeof_int
        \<or> type_a = FLOAT \<and> length_a \<noteq> sizeof_float)
    \<or> (op_a \<noteq> LT \<and> op_a \<noteq> LTE \<and> op_a \<noteq> EQ \<and> op_a \<noteq> GTE \<and> op_a \<noteq> GT \<and> op_a \<noteq> NE)"
  have eq: "startScan s offset_a length_a type_a filter_a op_a =
    (if filter_a = None then (OK, s\<lparr>filter' := None\<rparr>)
     else if bad then (BADSCANPARM, s)
     else (OK, s\<lparr>offset := offset_a, length' := length_a, type := type_a,
                  filter' := filter_a, op := op_a\<rparr>))"
    by (simp only: startScan_def bad_def)
  show ?thesis
  proof (cases "filter_a = None")
    case True
    have "startScan s offset_a length_a type_a filter_a op_a = (OK, s\<lparr>filter' := None\<rparr>)"
      unfolding eq using True by (simp only: if_True simp_thms)
    with True show ?thesis by blast
  next
    case False
    show ?thesis
    proof (cases bad)
      case True
      have "startScan s offset_a length_a type_a filter_a op_a = (BADSCANPARM, s)"
        unfolding eq using True False by (simp only: if_True if_False simp_thms)
      with False show ?thesis by blast
    next
      case nb: False
      have "startScan s offset_a length_a type_a filter_a op_a =
         (OK, s\<lparr>offset := offset_a, length' := length_a, type := type_a,
                  filter' := filter_a, op := op_a\<rparr>)"
        unfolding eq using nb False by (simp only: if_False simp_thms)
      with False show ?thesis by blast
    qed
  qed
qed

lemma startScan_null:
  "startScan s offset_a length_a type_a None op_a = (OK, s\<lparr>filter' := None\<rparr>)"
  by (simp only: startScan_def if_True simp_thms)

lemma startScan_bad_iff:
  "filter_a \<noteq> None \<Longrightarrow>
    (fst (startScan s offset_a length_a type_a filter_a op_a) = BADSCANPARM) =
      (sint offset_a < 0 \<or> sint length_a < 1
        \<or> type_a \<notin> {STRING, INTEGER, FLOAT}
        \<or> (type_a = INTEGER \<and> length_a \<noteq> sizeof_int)
        \<or> (type_a = FLOAT \<and> length_a \<noteq> sizeof_float)
        \<or> op_a \<notin> {LT, LTE, EQ, GTE, GT, NE})"
  by (auto simp add: startScan_def)

lemma startScan_bad_state:
  "fst (startScan s offset_a length_a type_a filter_a op_a) = BADSCANPARM \<Longrightarrow>
   snd (startScan s offset_a length_a type_a filter_a op_a) = s"
  using startScan_cases [of s offset_a length_a type_a filter_a op_a]
  by (elim disjE conjE) (simp_all only: fst_conv snd_conv Status.distinct simp_thms)

lemma startScan_good:
  "filter_a \<noteq> None \<Longrightarrow>
   fst (startScan s offset_a length_a type_a filter_a op_a) \<noteq> BADSCANPARM \<Longrightarrow>
   startScan s offset_a length_a type_a filter_a op_a =
     (OK, s\<lparr>offset := offset_a, length' := length_a, type := type_a,
             filter' := filter_a, op := op_a\<rparr>)"
  using startScan_cases [of s offset_a length_a type_a filter_a op_a]
  by (elim disjE conjE) (simp_all only: fst_conv Status.distinct simp_thms)

text \<open>
  Claim C8, as the code has it. With a non-null filter value \<^verbatim>\<open>startScan\<close> returns
  \<open>BADSCANPARM\<close> exactly when a parameter is invalid: the offset negative, the length
  below one, the type none of the three, an \<^verbatim>\<open>INTEGER\<close> or \<^verbatim>\<open>FLOAT\<close> of another
  length than the type's width, or the operator none of the six. On a violation the
  state of the scan is left exactly as it was, the stored filter included; otherwise
  the five parameters are stored. With a null filter value the call succeeds and
  clears the filter, and then every record matches.
\<close>

theorem startScan_validates:
  "(filter_a \<noteq> None \<longrightarrow>
      ((fst (startScan s offset_a length_a type_a filter_a op_a) = BADSCANPARM) =
         (sint offset_a < 0 \<or> sint length_a < 1
          \<or> type_a \<notin> {STRING, INTEGER, FLOAT}
          \<or> (type_a = INTEGER \<and> length_a \<noteq> sizeof_int)
          \<or> (type_a = FLOAT \<and> length_a \<noteq> sizeof_float)
          \<or> op_a \<notin> {LT, LTE, EQ, GTE, GT, NE}))
      \<and> (fst (startScan s offset_a length_a type_a filter_a op_a) = BADSCANPARM \<longrightarrow>
           snd (startScan s offset_a length_a type_a filter_a op_a) = s)
      \<and> (fst (startScan s offset_a length_a type_a filter_a op_a) \<noteq> BADSCANPARM \<longrightarrow>
           startScan s offset_a length_a type_a filter_a op_a =
             (OK, s\<lparr>offset := offset_a, length' := length_a, type := type_a,
                     filter' := filter_a, op := op_a\<rparr>)))
   \<and> startScan s offset_a length_a type_a None op_a = (OK, s\<lparr>filter' := None\<rparr>)
   \<and> (\<forall>rec. matchRec (snd (startScan s offset_a length_a type_a None op_a)) rec = Some True)"
proof (intro conjI impI allI)
  assume "filter_a \<noteq> None"
  then show "(fst (startScan s offset_a length_a type_a filter_a op_a) = BADSCANPARM) =
         (sint offset_a < 0 \<or> sint length_a < 1
          \<or> type_a \<notin> {STRING, INTEGER, FLOAT}
          \<or> (type_a = INTEGER \<and> length_a \<noteq> sizeof_int)
          \<or> (type_a = FLOAT \<and> length_a \<noteq> sizeof_float)
          \<or> op_a \<notin> {LT, LTE, EQ, GTE, GT, NE})"
    by (rule startScan_bad_iff)
next
  assume "fst (startScan s offset_a length_a type_a filter_a op_a) = BADSCANPARM"
  then show "snd (startScan s offset_a length_a type_a filter_a op_a) = s"
    by (rule startScan_bad_state)
next
  assume "filter_a \<noteq> None"
    and "fst (startScan s offset_a length_a type_a filter_a op_a) \<noteq> BADSCANPARM"
  then show "startScan s offset_a length_a type_a filter_a op_a =
             (OK, s\<lparr>offset := offset_a, length' := length_a, type := type_a,
                     filter' := filter_a, op := op_a\<rparr>)"
    by (rule startScan_good)
next
  show "startScan s offset_a length_a type_a None op_a = (OK, s\<lparr>filter' := None\<rparr>)"
    by (rule startScan_null)
next
  fix rec
  show "matchRec (snd (startScan s offset_a length_a type_a None op_a)) rec = Some True"
    by (simp add: startScan_null matchRec_def)
qed

text \<open>
  An instance: on a scan that filters for the integer 5, a call with offset \<open>-1\<close> is
  refused and changes nothing, and a call with valid parameters is accepted.
\<close>

theorem startScan_validates_witness:
  "fst (startScan (exFiltered 5 EQ) (-1) 4 INTEGER (Some [3, 0, 0, 0]) EQ) = BADSCANPARM
   \<and> snd (startScan (exFiltered 5 EQ) (-1) 4 INTEGER (Some [3, 0, 0, 0]) EQ) = exFiltered 5 EQ
   \<and> fst (startScan (exFiltered 5 EQ) 0 4 INTEGER (Some [3, 0, 0, 0]) GT) = OK"
proof -
  note a = startScan_validates [of "Some [3, 0, 0, 0]" "exFiltered 5 EQ" "-1" 4 INTEGER EQ]
  note b = startScan_validates [of "Some [3, 0, 0, 0]" "exFiltered 5 EQ" 0 4 INTEGER GT]
  have 1: "fst (startScan (exFiltered 5 EQ) (-1) 4 INTEGER (Some [3, 0, 0, 0]) EQ) = BADSCANPARM"
    using a [THEN conjunct1, rule_format, THEN conjunct1] by simp
  have 2: "snd (startScan (exFiltered 5 EQ) (-1) 4 INTEGER (Some [3, 0, 0, 0]) EQ) = exFiltered 5 EQ"
    using a [THEN conjunct1, rule_format, THEN conjunct2, THEN conjunct1, rule_format] 1
    by blast
  have "fst (startScan (exFiltered 5 EQ) 0 4 INTEGER (Some [3, 0, 0, 0]) GT) \<noteq> BADSCANPARM"
    using b [THEN conjunct1, rule_format, THEN conjunct1] by (simp add: sizeof_int_def)
  then have 3: "fst (startScan (exFiltered 5 EQ) 0 4 INTEGER (Some [3, 0, 0, 0]) GT) = OK"
    using b [THEN conjunct1, rule_format, THEN conjunct2, THEN conjunct2, rule_format]
    by (metis fst_conv option.distinct(1))
  from 1 2 3 show ?thesis by blast
qed

text \<open>
  The claim says a violation leaves the scan unfiltered. It leaves the filter of an
  earlier call in force: after the refused call the scan still rejects the record 3.
\<close>

theorem startScan_violation_keeps_filter:
  "fst (startScan (exFiltered 5 EQ) (-1) 4 INTEGER (Some [3, 0, 0, 0]) EQ) = BADSCANPARM
   \<and> matchRec (snd (startScan (exFiltered 5 EQ) (-1) 4 INTEGER (Some [3, 0, 0, 0]) EQ))
          [3, 0, 0, 0] = Some False"
  by (simp add: startScan_def sizeof_int_def ex_defs ctor_defs buf_defs
      matchRec_def memcpy_int_def fsgn_of_int_def)

subsection \<open>Raw bytes as numbers\<close>

lemma unat_byte_less: "unat (a :: 8 word) < 256"
  using unsigned_less [of a, where ?'a = nat] by simp

lemma sint32: "sint (x :: 32 word) = (if uint x < 2 ^ 31 then uint x else uint x - 2 ^ 32)"
proof -
  have b: "0 \<le> uint x" "uint x < 2 ^ 32"
    using unsigned_less [of x, where ?'a = int] by simp_all
  show ?thesis
  proof (cases "uint x < 2 ^ 31")
    case True
    then have "(uint x + 2 ^ 31) mod 2 ^ 32 = uint x + 2 ^ 31"
      using b by (intro mod_pos_pos_trivial) simp_all
    with True show ?thesis
      by (simp add: sint_uint signed_take_bit_eq_take_bit_shift take_bit_eq_mod)
  next
    case False
    have "(uint x + 2 ^ 31) mod 2 ^ 32 = (uint x + 2 ^ 31 - 2 ^ 32) mod 2 ^ 32"
      by (metis mod_diff_right_eq mod_self diff_zero)
    also have "\<dots> = uint x + 2 ^ 31 - 2 ^ 32"
      using b False by (intro mod_pos_pos_trivial) simp_all
    finally show ?thesis using False
      by (simp add: sint_uint signed_take_bit_eq_take_bit_shift take_bit_eq_mod)
  qed
qed

lemma sint_of_bits: assumes "u < 2 ^ 32"
  shows "sint (of_nat u :: 32 word) = (if u < 2 ^ 31 then int u else int u - 2 ^ 32)"
proof -
  have "uint (of_nat u :: 32 word) = int u"
    using assms by (simp add: uint_nat unat_of_nat)
  then show ?thesis by (simp add: sint32)
qed

lemma unat_of_nonneg: "0 \<le> sint (x :: 32 word) \<Longrightarrow> unat x = nat (sint x)"
  using unsigned_less [of x, where ?'a = int]
  by (simp add: sint32 split: if_splits)

lemma take4_drop:
  "n + 4 \<le> length m \<Longrightarrow> take 4 (drop n m) = [m ! n, m ! (n + 1), m ! (n + 2), m ! (n + 3)]"
  by (auto simp add: list_eq_iff_nth_eq nth_Cons' less_Suc_eq eval_nat_numeral)

lemma bytesLE4_bound: "bytesLE [a, b, c, d] < 2 ^ 32"
  using unat_byte_less [of a] unat_byte_less [of b] unat_byte_less [of c] unat_byte_less [of d]
  by simp

lemma memcpy_int_bitsAt:
  assumes "0 \<le> i" "i + 4 \<le> int (length m)"
  shows "memcpy_int m i = Some (of_nat (bitsAt m i))" and "bitsAt m i < 2 ^ 32"
proof -
  have n: "nat i + 4 \<le> length m" using assms by linarith
  have t: "take 4 (drop (nat i) m) = [m ! nat i, m ! (nat i + 1), m ! (nat i + 2), m ! (nat i + 3)]"
    using n by (rule take4_drop)
  show "memcpy_int m i = Some (of_nat (bitsAt m i))"
    using assms by (simp add: memcpy_int_def bitsAt_def t)
  show "bitsAt m i < 2 ^ 32"
    unfolding bitsAt_def t by (rule bytesLE4_bound)
qed

lemma memcpy_int_None:
  "i < 0 \<or> int (length m) < i + 4 \<Longrightarrow> memcpy_int m i = None"
  by (auto simp add: memcpy_int_def)

lemma sint_bitsAt:
  "bitsAt m i < 2 ^ 32 \<Longrightarrow> sint (of_nat (bitsAt m i) :: 32 word) = intAt m i"
  by (simp add: sint_of_bits intAt_def)

subsection \<open>The comparator and the sign of the difference\<close>

lemma cmpOp_holds:
  fixes a b :: "'a::linorder"
  assumes "d < 0 \<longleftrightarrow> a < b" "d = 0 \<longleftrightarrow> a = b"
  shows "cmpOp cmp (fsgn_of_int d) = holds cmp a b"
  using assms by (cases cmp) (auto simp add: fsgn_of_int_def)

lemma cmpOp_holds_int: "cmpOp cmp (fsgn_of_int (x - y)) = holds cmp x y"
  by (rule cmpOp_holds) auto

lemma cmpOp_holds_0: "cmpOp cmp (fsgn_of_int d) = holds cmp d 0"
  by (rule cmpOp_holds) auto

lemma holds_scaled:
  fixes x y :: int and c :: real
  assumes "0 < c"
  shows "holds cmp (real_of_int x / c) (real_of_int y / c) = holds cmp x y"
  using assms by (cases cmp) (auto simp add: divide_less_cancel divide_le_cancel)

subsection \<open>Strings\<close>

lemma cstr_0: "cstr 0 xs = []"
  by (simp add: cstr_def)

lemma cstr_Suc_Cons: "cstr (Suc n) (x # xs) = (if x = 0 then [] else x # cstr n xs)"
  by (simp add: cstr_def)

lemma byte_diff:
  fixes c1 c2 :: byte
  shows "int (unat c1) - int (unat c2) < 0 \<longleftrightarrow> c1 < c2"
    and "int (unat c1) - int (unat c2) = 0 \<longleftrightarrow> c1 = c2"
  by (auto simp: word_less_def word_uint_eq_iff)

lemma strncmp_lex:
  "n \<le> length a \<or> 0 \<in> set a \<Longrightarrow> n \<le> length b \<or> 0 \<in> set b \<Longrightarrow>
   \<exists>d. strncmp a b n = Some d
     \<and> (d < 0 \<longleftrightarrow> cstr n a < cstr n b) \<and> (d = 0 \<longleftrightarrow> cstr n a = cstr n b)"
proof (induction n arbitrary: a b)
  case 0
  then show ?case by (simp add: cstr_0)
next
  case (Suc n)
  from Suc.prems(1) obtain x xs where a: "a = x # xs" by (cases a) auto
  from Suc.prems(2) obtain y ys where b: "b = y # ys" by (cases b) auto
  have nz: "\<And>c :: byte. c \<noteq> 0 \<Longrightarrow> 0 < c" by (simp add: word_neq_0_conv)
  show ?case
  proof (cases "x = y")
    case False
    then show ?thesis
      using byte_diff [of x y] nz [of x] nz [of y]
      by (auto simp add: a b cstr_Suc_Cons)
  next
    case True
    show ?thesis
    proof (cases "x = 0")
      case z: True
      with True show ?thesis by (simp add: a b cstr_Suc_Cons)
    next
      case nzx: False
      have "n \<le> length xs \<or> 0 \<in> set xs" using Suc.prems(1) nzx by (auto simp add: a)
      moreover have "n \<le> length ys \<or> 0 \<in> set ys" using Suc.prems(2) nzx True by (auto simp add: b)
      ultimately obtain d where "strncmp xs ys n = Some d"
        "d < 0 \<longleftrightarrow> cstr n xs < cstr n ys" "d = 0 \<longleftrightarrow> cstr n xs = cstr n ys"
        using Suc.IH [of xs ys] by blast
      with True nzx show ?thesis by (simp add: a b cstr_Suc_Cons)
    qed
  qed
qed

subsection \<open>Floats\<close>

lemma float_of_bits_finite:
  assumes u: "u < 2 ^ 32" and f: "b32_finite u"
  shows "\<exists>k. float_of_bits (of_nat u) = FFin k \<and> b32_value u = real_of_int k / 2 ^ 149"
proof -
  have un: "unat (of_nat u :: 32 word) = u" using u by (simp add: unat_of_nat)
  let ?e = "(u div 2 ^ 23) mod 256" and ?m = "u mod 2 ^ 23"
  let ?v = "if ?e = 0 then int ?m else int ((2 ^ 23 + ?m) * 2 ^ (?e - 1))"
  have fb: "float_of_bits (of_nat u) = FFin (if 2 ^ 31 \<le> u then - ?v else ?v)"
    using f by (simp add: float_of_bits_def un Let_def b32_finite_def b32_exponent_def)
  have p: "(2 :: real) ^ 149 = 2 ^ 23 * 2 ^ 126" by simp
  have val: "(if ?e = 0 then real ?m / 2 ^ 23 / 2 ^ 126
              else (1 + real ?m / 2 ^ 23) * 2 ^ ?e / 2 ^ 127) = real_of_int ?v / 2 ^ 149"
  proof (cases "?e = 0")
    case True
    then show ?thesis by (simp add: p)
  next
    case False
    then obtain e' where e: "?e = Suc e'" by (cases ?e) auto
    have "(1 + real ?m / 2 ^ 23) * 2 ^ Suc e' / 2 ^ 127 = real ((2 ^ 23 + ?m) * 2 ^ e') / 2 ^ 149"
      by (simp add: field_simps)
    with e show ?thesis by simp
  qed
  show ?thesis
    unfolding fb b32_value_def b32_negative_def b32_exponent_def b32_fraction_def val
    by (cases "2 ^ 31 \<le> u") simp_all
qed

lemma float_of_bits_inf:
  assumes u: "u < 2 ^ 32" and f: "b32_inf u"
  shows "float_of_bits (of_nat u) = FInf (b32_negative u)"
proof -
  have un: "unat (of_nat u :: 32 word) = u" using u by (simp add: unat_of_nat)
  show ?thesis
    using f by (simp add: float_of_bits_def un Let_def b32_inf_def b32_exponent_def
          b32_fraction_def b32_negative_def)
qed

lemma float_of_bits_nan:
  assumes u: "u < 2 ^ 32" and f: "b32_nan u"
  shows "float_of_bits (of_nat u) = FNaN"
proof -
  have un: "unat (of_nat u :: 32 word) = u" using u by (simp add: unat_of_nat)
  show ?thesis
    using f by (simp add: float_of_bits_def un Let_def b32_nan_def b32_exponent_def
          b32_fraction_def)
qed

lemma cmpOp_NaN: "cmpOp cmp NotANumber = (cmp = NE)"
  by (cases cmp) simp_all

lemma cmpOp_Pos: "cmpOp cmp Pos = (cmp \<in> {GT, GTE, NE})"
  by (cases cmp) simp_all

lemma cmpOp_Neg: "cmpOp cmp Neg = (cmp \<in> {LT, LTE, NE})"
  by (cases cmp) simp_all

lemma float_diff_NaN: "float_diff x FNaN = NotANumber" "float_diff FNaN y = NotANumber"
  by (cases x) simp_all


subsection \<open>matchRec\<close>

lemma sint_sum_le:
  fixes x y :: "32 word"
  assumes "0 \<le> sint x + sint y"
  shows "sint (x + y) \<le> sint x + sint y"
  using assms by (simp add: sint_word_add signed_take_bit_int_less_eq_self_iff)

lemma matchRec_None: "filter' s = None \<Longrightarrow> matchRec s rec = Some True"
  by (simp add: matchRec_def)

lemma matchRec_short:
  "filter' s \<noteq> None \<Longrightarrow> sint (offset s + length' s) = sint (offset s) + sint (length' s) \<Longrightarrow>
   int (length rec) < sint (offset s) + sint (length' s) \<Longrightarrow> matchRec s rec = Some False"
  by (auto simp add: matchRec_def)

lemma guard_field:
  assumes "length' s = 4" "0 \<le> sint (offset s)" "sint (offset s) + 4 \<le> int (length rec)"
  shows "\<not> int (length rec) < sint (offset s + length' s)"
  using sint_sum_le [of "offset s" 4] assms by simp

lemma guard_string:
  assumes "0 \<le> sint (offset s)" "0 \<le> sint (length' s)"
    "sint (offset s) + sint (length' s) \<le> int (length rec)"
  shows "\<not> int (length rec) < sint (offset s + length' s)"
  using sint_sum_le [of "offset s" "length' s"] assms by simp

lemma matchRec_INTEGER:
  assumes "filter' s = Some flt" "type s = INTEGER" "length' s = 4"
    and "0 \<le> sint (offset s)" "sint (offset s) + 4 \<le> int (length rec)" "4 \<le> length flt"
  shows "matchRec s rec =
    Some (holds (op s) (signed_take_bit 31 (intAt rec (sint (offset s)) - intAt flt 0)) 0)"
proof -
  note r = memcpy_int_bitsAt [OF assms(4,5)]
  have "(0::int) + 4 \<le> int (length flt)" using assms(6) by simp
  note f = memcpy_int_bitsAt [OF order_refl this]
  show ?thesis
    using assms(1,2) guard_field [OF assms(3,4,5)]
    by (simp add: matchRec_def r(1) f(1) cmpOp_holds_0 sint_word_diff
          sint_bitsAt [OF r(2)] sint_bitsAt [OF f(2)])
qed

lemma matchRec_FLOAT:
  assumes "filter' s = Some flt" "type s = FLOAT" "length' s = 4"
    and "0 \<le> sint (offset s)" "sint (offset s) + 4 \<le> int (length rec)" "4 \<le> length flt"
  shows "matchRec s rec =
    Some (cmpOp (op s) (float_diff (float_of_bits (of_nat (bitsAt rec (sint (offset s)))))
                                   (float_of_bits (of_nat (bitsAt flt 0)))))"
    and "bitsAt rec (sint (offset s)) < 2 ^ 32" and "bitsAt flt 0 < 2 ^ 32"
proof -
  note r = memcpy_int_bitsAt [OF assms(4,5)]
  have "(0::int) + 4 \<le> int (length flt)" using assms(6) by simp
  note f = memcpy_int_bitsAt [OF order_refl this]
  show "matchRec s rec =
    Some (cmpOp (op s) (float_diff (float_of_bits (of_nat (bitsAt rec (sint (offset s)))))
                                   (float_of_bits (of_nat (bitsAt flt 0)))))"
    using assms(1,2) guard_field [OF assms(3,4,5)]
    by (simp add: matchRec_def r(1) f(1))
  show "bitsAt rec (sint (offset s)) < 2 ^ 32" by (rule r(2))
  show "bitsAt flt 0 < 2 ^ 32" by (rule f(2))
qed

lemma matchRec_STRING:
  assumes "filter' s = Some flt" "type s = STRING"
    and "0 \<le> sint (offset s)" "0 \<le> sint (length' s)"
    and "sint (offset s) + sint (length' s) \<le> int (length rec)"
    and "nat (sint (length' s)) \<le> length flt \<or> 0 \<in> set flt"
  shows "matchRec s rec =
    Some (holds (op s) (cstr (nat (sint (length' s))) (drop (nat (sint (offset s))) rec))
                       (cstr (nat (sint (length' s))) flt))"
proof -
  let ?n = "nat (sint (length' s))" and ?a = "drop (nat (sint (offset s))) rec"
  have n: "unat (length' s) = ?n" using assms(4) by (rule unat_of_nonneg)
  have "?n \<le> length ?a" using assms(3,4,5) by simp
  then have "?n \<le> length ?a \<or> 0 \<in> set ?a" ..
  from strncmp_lex [OF this assms(6)]
  obtain d where d: "strncmp ?a flt ?n = Some d"
    "d < 0 \<longleftrightarrow> cstr ?n ?a < cstr ?n flt" "d = 0 \<longleftrightarrow> cstr ?n ?a = cstr ?n flt"
    by blast
  have at: "sint (offset s) \<le> int (length rec)" using assms(4,5) by simp
  show ?thesis
    using assms(1,2,3) at guard_string [OF assms(3,4,5)]
    by (simp add: matchRec_def n d(1) cmpOp_holds [OF d(2,3)])
qed

lemma matchRec_outside:
  assumes "filter' s = Some flt" "type s = INTEGER \<or> type s = FLOAT"
    and "\<not> int (length rec) < sint (offset s + length' s)"
    and "sint (offset s) < 0 \<or> int (length rec) < sint (offset s) + 4 \<or> length flt < 4"
  shows "matchRec s rec = None"
proof -
  have "memcpy_int rec (sint (offset s)) = None \<or> memcpy_int flt 0 = None"
    using assms(4) by (auto simp add: memcpy_int_def)
  then show ?thesis
    using assms(1,2,3) by (auto simp add: matchRec_def Option.bind_eq_None_conv)
qed


lemma b32_classes: "b32_finite u \<or> b32_inf u \<or> b32_nan u"
  by (auto simp add: b32_finite_def b32_inf_def b32_nan_def)

lemma float_cmp:
  assumes a: "a < 2 ^ 32" and b: "b < 2 ^ 32"
  defines "d \<equiv> float_diff (float_of_bits (of_nat a)) (float_of_bits (of_nat b))"
  shows "b32_finite a \<Longrightarrow> b32_finite b \<Longrightarrow> cmpOp cmp d = holds cmp (b32_value a) (b32_value b)"
    and "b32_nan a \<or> b32_nan b \<Longrightarrow> cmpOp cmp d = (cmp = NE)"
    and "b32_inf a \<Longrightarrow> b32_inf b \<Longrightarrow> b32_negative a = b32_negative b \<Longrightarrow>
         cmpOp cmp d = (cmp = NE)"
    and "b32_inf a \<Longrightarrow> b32_finite b \<or> b32_inf b \<and> b32_negative a \<noteq> b32_negative b \<Longrightarrow>
         cmpOp cmp d = (if b32_negative a then cmp \<in> {LT, LTE, NE} else cmp \<in> {GT, GTE, NE})"
    and "b32_finite a \<Longrightarrow> b32_inf b \<Longrightarrow>
         cmpOp cmp d = (if b32_negative b then cmp \<in> {GT, GTE, NE} else cmp \<in> {LT, LTE, NE})"
proof -
  {
    assume "b32_finite a" "b32_finite b"
    from float_of_bits_finite [OF a this(1)] float_of_bits_finite [OF b this(2)]
    obtain k l where k: "float_of_bits (of_nat a) = FFin k" "b32_value a = real_of_int k / 2 ^ 149"
      and l: "float_of_bits (of_nat b) = FFin l" "b32_value b = real_of_int l / 2 ^ 149"
      by blast
    show "cmpOp cmp d = holds cmp (b32_value a) (b32_value b)"
      by (simp add: d_def k l cmpOp_holds_int holds_scaled)
  }
  {
    assume "b32_nan a \<or> b32_nan b"
    then show "cmpOp cmp d = (cmp = NE)"
      using float_of_bits_nan [OF a] float_of_bits_nan [OF b]
      by (auto simp add: d_def float_diff_NaN cmpOp_NaN)
  }
  {
    assume "b32_inf a" "b32_inf b" "b32_negative a = b32_negative b"
    then show "cmpOp cmp d = (cmp = NE)"
      by (simp add: d_def float_of_bits_inf [OF a] float_of_bits_inf [OF b] cmpOp_NaN)
  }
  {
    assume i: "b32_inf a" and o: "b32_finite b \<or> b32_inf b \<and> b32_negative a \<noteq> b32_negative b"
    from o show "cmpOp cmp d =
        (if b32_negative a then cmp \<in> {LT, LTE, NE} else cmp \<in> {GT, GTE, NE})"
    proof
      assume "b32_finite b"
      from float_of_bits_finite [OF b this] obtain l where "float_of_bits (of_nat b) = FFin l"
        by blast
      then show ?thesis
        by (simp add: d_def float_of_bits_inf [OF a i] cmpOp_Neg cmpOp_Pos)
    next
      assume "b32_inf b \<and> b32_negative a \<noteq> b32_negative b"
      then show ?thesis
        by (simp add: d_def float_of_bits_inf [OF a i] float_of_bits_inf [OF b]
              cmpOp_Neg cmpOp_Pos)
    qed
  }
  {
    assume f: "b32_finite a" and i: "b32_inf b"
    from float_of_bits_finite [OF a f] obtain k where "float_of_bits (of_nat a) = FFin k"
      by blast
    then show "cmpOp cmp d =
        (if b32_negative b then cmp \<in> {GT, GTE, NE} else cmp \<in> {LT, LTE, NE})"
      by (simp add: d_def float_of_bits_inf [OF b i] cmpOp_Neg cmpOp_Pos)
  }
qed

text \<open>
  Claim C9, as the code has it. \<^verbatim>\<open>matchRec\<close> matches every record when no filter is
  set. With a filter, when \<open>offset + length\<close> does not overflow \<^verbatim>\<open>int\<close> and exceeds the
  record's length, it does not match. For a four-byte field that lies inside the
  record, and a filter value of at least four bytes: an \<^verbatim>\<open>INTEGER\<close> field is compared
  through the 32-bit difference of the two integers that the raw bytes hold, which
  is the comparison of the two numbers whenever their difference fits 32 bits; a
  \<^verbatim>\<open>FLOAT\<close> field is compared as a number when both values are finite, an infinity
  compares by its sign with a finite value or with the opposite infinity, and when a
  value is not a number or both are the same infinity only \<^verbatim>\<open>NE\<close> matches. A
  \<^verbatim>\<open>STRING\<close> field that lies inside the record, against a filter value that holds
  \<open>length\<close> bytes or a NUL, is compared in lexicographic order of the two byte strings,
  each cut at \<open>length\<close> bytes and at its first NUL. When the four bytes of an
  \<^verbatim>\<open>INTEGER\<close> or \<^verbatim>\<open>FLOAT\<close> field are not all inside the record, or the filter value has
  fewer than four, and the test of \<open>offset + length\<close> has let the record through, the
  call reads outside a buffer and nothing is defined.
\<close>

theorem matchRec_semantics:
  "(filter' s = None \<longrightarrow> matchRec s rec = Some True)
   \<and> (filter' s \<noteq> None
        \<and> sint (offset s + length' s) = sint (offset s) + sint (length' s)
        \<and> int (length rec) < sint (offset s) + sint (length' s) \<longrightarrow>
        matchRec s rec = Some False)
   \<and> (filter' s = Some flt \<and> length' s = 4 \<and> 0 \<le> sint (offset s)
        \<and> sint (offset s) + 4 \<le> int (length rec) \<and> 4 \<le> length flt \<longrightarrow>
        (type s = INTEGER \<longrightarrow>
           matchRec s rec =
             Some (holds (op s)
                     (signed_take_bit 31 (intAt rec (sint (offset s)) - intAt flt 0)) 0)
           \<and> (- (2 ^ 31) \<le> intAt rec (sint (offset s)) - intAt flt 0
               \<and> intAt rec (sint (offset s)) - intAt flt 0 < 2 ^ 31 \<longrightarrow>
               matchRec s rec = Some (holds (op s) (intAt rec (sint (offset s))) (intAt flt 0))))
        \<and> (type s = FLOAT \<longrightarrow>
             (b32_finite (bitsAt rec (sint (offset s))) \<and> b32_finite (bitsAt flt 0) \<longrightarrow>
                matchRec s rec =
                  Some (holds (op s) (b32_value (bitsAt rec (sint (offset s))))
                                     (b32_value (bitsAt flt 0))))
             \<and> (b32_nan (bitsAt rec (sint (offset s))) \<or> b32_nan (bitsAt flt 0) \<longrightarrow>
                  matchRec s rec = Some (op s = NE))
             \<and> (b32_inf (bitsAt rec (sint (offset s))) \<and> b32_inf (bitsAt flt 0)
                  \<and> b32_negative (bitsAt rec (sint (offset s))) = b32_negative (bitsAt flt 0) \<longrightarrow>
                  matchRec s rec = Some (op s = NE))
             \<and> (b32_inf (bitsAt rec (sint (offset s)))
                  \<and> (b32_finite (bitsAt flt 0)
                      \<or> b32_inf (bitsAt flt 0)
                        \<and> b32_negative (bitsAt rec (sint (offset s))) \<noteq> b32_negative (bitsAt flt 0))
                  \<longrightarrow>
                  matchRec s rec =
                    Some (if b32_negative (bitsAt rec (sint (offset s)))
                          then op s \<in> {LT, LTE, NE} else op s \<in> {GT, GTE, NE}))
             \<and> (b32_finite (bitsAt rec (sint (offset s))) \<and> b32_inf (bitsAt flt 0) \<longrightarrow>
                  matchRec s rec =
                    Some (if b32_negative (bitsAt flt 0)
                          then op s \<in> {GT, GTE, NE} else op s \<in> {LT, LTE, NE}))))
   \<and> (filter' s = Some flt \<and> type s = STRING
        \<and> 0 \<le> sint (offset s) \<and> 0 \<le> sint (length' s)
        \<and> sint (offset s) + sint (length' s) \<le> int (length rec)
        \<and> (nat (sint (length' s)) \<le> length flt \<or> 0 \<in> set flt) \<longrightarrow>
        matchRec s rec =
          Some (holds (op s)
                  (cstr (nat (sint (length' s))) (drop (nat (sint (offset s))) rec))
                  (cstr (nat (sint (length' s))) flt)))
   \<and> (filter' s = Some flt \<and> (type s = INTEGER \<or> type s = FLOAT)
        \<and> \<not> int (length rec) < sint (offset s + length' s)
        \<and> (sint (offset s) < 0 \<or> int (length rec) < sint (offset s) + 4 \<or> length flt < 4) \<longrightarrow>
        matchRec s rec = None)"
proof (intro conjI impI; (elim conjE)?)
  assume "filter' s = None"
  then show "matchRec s rec = Some True" by (rule matchRec_None)
next
  assume "filter' s \<noteq> None" "sint (offset s + length' s) = sint (offset s) + sint (length' s)"
    "int (length rec) < sint (offset s) + sint (length' s)"
  then show "matchRec s rec = Some False" by (rule matchRec_short)
next
  assume h: "filter' s = Some flt" "length' s = 4" "0 \<le> sint (offset s)"
    "sint (offset s) + 4 \<le> int (length rec)" "4 \<le> length flt" and t: "type s = INTEGER"
  show i: "matchRec s rec =
      Some (holds (op s) (signed_take_bit 31 (intAt rec (sint (offset s)) - intAt flt 0)) 0)"
    using h(1) t h(2-5) by (rule matchRec_INTEGER)
  assume "- (2 ^ 31) \<le> intAt rec (sint (offset s)) - intAt flt 0"
    "intAt rec (sint (offset s)) - intAt flt 0 < 2 ^ 31"
  then have "signed_take_bit 31 (intAt rec (sint (offset s)) - intAt flt 0)
      = intAt rec (sint (offset s)) - intAt flt 0"
    by (simp add: signed_take_bit_int_eq_self)
  moreover have "holds (op s) (intAt rec (sint (offset s)) - intAt flt 0) 0
      = holds (op s) (intAt rec (sint (offset s))) (intAt flt 0)"
    by (cases "op s") auto
  ultimately show "matchRec s rec =
      Some (holds (op s) (intAt rec (sint (offset s))) (intAt flt 0))"
    using i by simp
next
  assume h: "filter' s = Some flt" "length' s = 4" "0 \<le> sint (offset s)"
    "sint (offset s) + 4 \<le> int (length rec)" "4 \<le> length flt" and t: "type s = FLOAT"
  note m = matchRec_FLOAT [OF h(1) t h(2-5)]
  note c = float_cmp [OF m(2,3), of "op s"]
  {
    assume "b32_finite (bitsAt rec (sint (offset s)))" "b32_finite (bitsAt flt 0)"
    then show "matchRec s rec =
        Some (holds (op s) (b32_value (bitsAt rec (sint (offset s)))) (b32_value (bitsAt flt 0)))"
      unfolding m(1) by (simp only: c(1))
  }
  {
    assume "b32_nan (bitsAt rec (sint (offset s))) \<or> b32_nan (bitsAt flt 0)"
    then show "matchRec s rec = Some (op s = NE)"
      unfolding m(1) by (simp only: c(2))
  }
  {
    assume "b32_inf (bitsAt rec (sint (offset s)))" "b32_inf (bitsAt flt 0)"
      "b32_negative (bitsAt rec (sint (offset s))) = b32_negative (bitsAt flt 0)"
    then show "matchRec s rec = Some (op s = NE)"
      unfolding m(1) by (simp only: c(3))
  }
  {
    assume "b32_inf (bitsAt rec (sint (offset s)))"
      "b32_finite (bitsAt flt 0)
       \<or> b32_inf (bitsAt flt 0)
         \<and> b32_negative (bitsAt rec (sint (offset s))) \<noteq> b32_negative (bitsAt flt 0)"
    then show "matchRec s rec =
        Some (if b32_negative (bitsAt rec (sint (offset s)))
              then op s \<in> {LT, LTE, NE} else op s \<in> {GT, GTE, NE})"
      unfolding m(1) by (simp only: c(4))
  }
  {
    assume "b32_finite (bitsAt rec (sint (offset s)))" "b32_inf (bitsAt flt 0)"
    then show "matchRec s rec =
        Some (if b32_negative (bitsAt flt 0)
              then op s \<in> {GT, GTE, NE} else op s \<in> {LT, LTE, NE})"
      unfolding m(1) by (simp only: c(5))
  }
next
  assume "filter' s = Some flt" "type s = STRING" "0 \<le> sint (offset s)"
    "0 \<le> sint (length' s)" "sint (offset s) + sint (length' s) \<le> int (length rec)"
    "nat (sint (length' s)) \<le> length flt \<or> 0 \<in> set flt"
  then show "matchRec s rec =
      Some (holds (op s) (cstr (nat (sint (length' s))) (drop (nat (sint (offset s))) rec))
              (cstr (nat (sint (length' s))) flt))"
    by (rule matchRec_STRING)
next
  assume "filter' s = Some flt" "type s = INTEGER \<or> type s = FLOAT"
    "\<not> int (length rec) < sint (offset s + length' s)"
    "sint (offset s) < 0 \<or> int (length rec) < sint (offset s) + 4 \<or> length flt < 4"
  then show "matchRec s rec = None" by (rule matchRec_outside)
qed


lemma exScan1_fields:
  "curPage exScan1 = Some 2" "curPageNo exScan1 = 2" "curRec exScan1 = NULLRID"
  "filePages exScan1 = [exPage 0 [] 0, exPage 1 [] 0,
                    exPage 2 [Some [5, 0, 0, 0], Some [3, 0, 0, 0]] (-1)]"
  "pinned exScan1 = [2, 1]" "filter' exScan1 = None" "hdrImage exScan1 = exHdr 2 2 1 2"
  "bufLog exScan1 = [EvRead 1 OK, EvRead 2 OK]"  "curDirtyFlag exScan1 = False"
  "numBufs exScan1 = 3"
  by (simp_all add: exScan1_def exFile1_def exRaw_def ctor_defs buf_defs exHdr_def)

lemma exFilter_fields:
  assumes "0 \<le> sint off" "1 \<le> sint len" "ty = STRING \<or> (ty = INTEGER \<or> ty = FLOAT) \<and> len = 4"
    and "cmp \<in> {LT, LTE, EQ, GTE, GT, NE}"
  shows "filter' (exFilter ty off len flt cmp) = Some flt"
    and "offset (exFilter ty off len flt cmp) = off"
    and "length' (exFilter ty off len flt cmp) = len"
    and "type (exFilter ty off len flt cmp) = ty"
    and "op (exFilter ty off len flt cmp) = cmp"
proof -
  have "fst (startScan exScan1 off len ty (Some flt) cmp) \<noteq> BADSCANPARM"
    using assms startScan_bad_iff [of "Some flt" exScan1 off len ty cmp]
    by (auto simp add: sizeof_int_def sizeof_float_def)
  then have "startScan exScan1 off len ty (Some flt) cmp =
      (OK, exScan1\<lparr>offset := off, length' := len, type := ty,
                     filter' := Some flt, op := cmp\<rparr>)"
    by (intro startScan_good) simp_all
  then have e: "exFilter ty off len flt cmp = exScan1\<lparr>offset := off, length' := len, type := ty,
                     filter' := Some flt, op := cmp\<rparr>"
    by (simp only: exFilter_def snd_conv)
  show "filter' (exFilter ty off len flt cmp) = Some flt" by (simp add: e)
  show "offset (exFilter ty off len flt cmp) = off" by (simp add: e)
  show "length' (exFilter ty off len flt cmp) = len" by (simp add: e)
  show "type (exFilter ty off len flt cmp) = ty" by (simp add: e)
  show "op (exFilter ty off len flt cmp) = cmp" by (simp add: e)
qed

lemma exFiltered_exFilter: "exFiltered v cmp = exFilter INTEGER 0 4 [v, 0, 0, 0] cmp"
  by (simp add: exFiltered_def exFilter_def)

lemmas exInt_fields = exFilter_fields [where ty = INTEGER and off = 0 and len = 4, simplified]
lemmas exFloat_fields = exFilter_fields [where ty = FLOAT and off = 0 and len = 4, simplified]
lemmas exString_fields = exFilter_fields [where ty = STRING and off = 0 and len = 3, simplified]

lemma ex_values:
  "intAt [5, 0, 0, 0] 0 = 5" "intAt [3, 0, 0, 0] 0 = 3"
  "bitsAt [0, 0, 0xC0, 0x3F] 0 = 0x3FC00000" "bitsAt [0, 0, 0x20, 0x40] 0 = 0x40200000"
  by (simp_all add: intAt_def bitsAt_def)

lemma ex_floats:
  "b32_finite 0x3FC00000" "b32_finite 0x40200000"
  "b32_value 0x3FC00000 = 3 / 2" "b32_value 0x40200000 = 5 / 2"
  by (simp_all add: b32_finite_def b32_value_def b32_exponent_def b32_fraction_def
        b32_negative_def)



text \<open>
  Instances: a scan without a filter; the integer field that stores 5, against the
  filter value 5 under \<^verbatim>\<open>EQ\<close>, \<^verbatim>\<open>LT\<close> and \<^verbatim>\<open>GT\<close>, and against 3 under \<^verbatim>\<open>GT\<close>; a record
  too short for the field; the float 1.5 against 2.5; the string "ab" against "ac";
  and an integer filter value of one byte only.
\<close>

theorem matchRec_semantics_witness:
  "matchRec exScan1 [5, 0, 0, 0] = Some True
   \<and> matchRec (exFiltered 5 EQ) [5, 0, 0, 0] = Some True
   \<and> matchRec (exFiltered 5 LT) [5, 0, 0, 0] = Some False
   \<and> matchRec (exFiltered 5 GT) [5, 0, 0, 0] = Some False
   \<and> matchRec (exFiltered 3 GT) [5, 0, 0, 0] = Some True
   \<and> matchRec (exFiltered 3 GT) [5, 0, 0] = Some False
   \<and> matchRec (exFilter FLOAT 0 4 [0, 0, 0x20, 0x40] LT) [0, 0, 0xC0, 0x3F] = Some True
   \<and> matchRec (exFilter FLOAT 0 4 [0, 0, 0x20, 0x40] GT) [0, 0, 0xC0, 0x3F] = Some False
   \<and> matchRec (exFilter STRING 0 3 [97, 99, 0] LT) [97, 98, 0] = Some True
   \<and> matchRec (exFilter INTEGER 0 4 [5] EQ) [5, 0, 0, 0] = None"
proof -
  have 0: "matchRec exScan1 [5, 0, 0, 0] = Some True"
    using matchRec_semantics [of exScan1 "[5, 0, 0, 0]"] by (simp add: exScan1_fields)
  have 1: "matchRec (exFiltered 5 EQ) [5, 0, 0, 0] = Some True"
    using matchRec_semantics [of "exFiltered 5 EQ" "[5, 0, 0, 0]" "[5, 0, 0, 0]"]
    by (simp add: exFiltered_exFilter exInt_fields ex_values)
  have 2: "matchRec (exFiltered 5 LT) [5, 0, 0, 0] = Some False"
    using matchRec_semantics [of "exFiltered 5 LT" "[5, 0, 0, 0]" "[5, 0, 0, 0]"]
    by (simp add: exFiltered_exFilter exInt_fields ex_values)
  have 3: "matchRec (exFiltered 5 GT) [5, 0, 0, 0] = Some False"
    using matchRec_semantics [of "exFiltered 5 GT" "[5, 0, 0, 0]" "[5, 0, 0, 0]"]
    by (simp add: exFiltered_exFilter exInt_fields ex_values)
  have 4: "matchRec (exFiltered 3 GT) [5, 0, 0, 0] = Some True"
    using matchRec_semantics [of "exFiltered 3 GT" "[5, 0, 0, 0]" "[3, 0, 0, 0]"]
    by (simp add: exFiltered_exFilter exInt_fields ex_values)
  have 5: "matchRec (exFiltered 3 GT) [5, 0, 0] = Some False"
    using matchRec_semantics [of "exFiltered 3 GT" "[5, 0, 0]" "[3, 0, 0, 0]"]
    by (simp add: exFiltered_exFilter exInt_fields)
  have 6: "matchRec (exFilter FLOAT 0 4 [0, 0, 0x20, 0x40] LT) [0, 0, 0xC0, 0x3F] = Some True"
    using matchRec_semantics [of "exFilter FLOAT 0 4 [0, 0, 0x20, 0x40] LT" "[0, 0, 0xC0, 0x3F]"
        "[0, 0, 0x20, 0x40]"]
    by (simp add: exFloat_fields ex_values ex_floats)
  have 7: "matchRec (exFilter FLOAT 0 4 [0, 0, 0x20, 0x40] GT) [0, 0, 0xC0, 0x3F] = Some False"
    using matchRec_semantics [of "exFilter FLOAT 0 4 [0, 0, 0x20, 0x40] GT" "[0, 0, 0xC0, 0x3F]"
        "[0, 0, 0x20, 0x40]"]
    by (simp add: exFloat_fields ex_values ex_floats)
  have 8: "matchRec (exFilter STRING 0 3 [97, 99, 0] LT) [97, 98, 0] = Some True"
    using matchRec_semantics [of "exFilter STRING 0 3 [97, 99, 0] LT" "[97, 98, 0]" "[97, 99, 0]"]
    by (simp add: exString_fields cstr_def)
  have 9: "matchRec (exFilter INTEGER 0 4 [5] EQ) [5, 0, 0, 0] = None"
    using matchRec_semantics [of "exFilter INTEGER 0 4 [5] EQ" "[5, 0, 0, 0]" "[5]"]
    by (simp add: exInt_fields)
  from 0 1 2 3 4 5 6 7 8 9 show ?thesis by blast
qed

text \<open>
  The claim has the comparator applied to the sign of "stored minus filter" for every
  record, and no match whenever \<open>offset + length\<close> exceeds the record's length. The
  integer field that stores \<open>-2147483648\<close>, against the filter value 1, does not match
  under \<^verbatim>\<open>LT\<close> and matches under \<^verbatim>\<open>GT\<close>: the 32-bit difference is positive. The string
  field with the bytes 97, 0, 98, against the filter value 97, 0, 99 of the same
  length 3, matches under \<^verbatim>\<open>EQ\<close>: bytes behind a NUL are not compared. And with
  offset \<open>2147483647\<close> and length 1, which \<^verbatim>\<open>startScan\<close> accepts, the 32-bit sum is
  negative, the record of four bytes passes the test, and the comparison reads far
  outside it.
\<close>

theorem matchRec_wraps_and_stops_at_NUL:
  "intAt [0, 0, 0, 128] 0 = - 2147483648 \<and> intAt [1, 0, 0, 0] 0 = 1
   \<and> matchRec (exFiltered 1 LT) [0, 0, 0, 128] = Some False
   \<and> matchRec (exFiltered 1 GT) [0, 0, 0, 128] = Some True
   \<and> matchRec (exFilter STRING 0 3 [97, 0, 99] EQ) [97, 0, 98] = Some True
   \<and> fst (startScan exScan1 2147483647 1 STRING (Some [97]) EQ) = OK
   \<and> matchRec (exFilter STRING 2147483647 1 [97] EQ) [97, 98, 99, 100] = None"
proof -
  have "strncmp [97, 0, 98] [97, 0, 99] 3 = Some 0"
    by (simp add: eval_nat_numeral)
  then show ?thesis
    by (simp add: intAt_def bitsAt_def exFiltered_def exFilter_def startScan_def sizeof_int_def
          sizeof_float_def matchRec_def memcpy_int_def fsgn_of_int_def)
qed


subsection \<open>getRecord and deleteRecord of a scan\<close>

text \<open>
  Claim C10, as the code has it. \<^verbatim>\<open>HeapFileScan::getRecord\<close> goes through \<^verbatim>\<open>curPage\<close>
  without a test. While a page is pinned it returns the record at \<^verbatim>\<open>curRec\<close> on that
  page, and the failure status of the page's lookup when \<^verbatim>\<open>curRec\<close> names no occupied
  slot. With no page pinned the call dereferences the null pointer and returns no
  status at all.
\<close>

theorem HeapFileScan_getRecord_pinned:
  "(curPage s = Some p \<and> 0 \<le> slotNo (curRec s)
      \<and> slotNo (curRec s) < int (length (slot (pageAt s p)))
      \<and> slot (pageAt s p) ! nat (slotNo (curRec s)) = Some r
      \<longrightarrow> HeapFileScan_getRecord s = Some (OK, Some r))
   \<and> (curPage s = Some p
      \<and> \<not> (0 \<le> slotNo (curRec s) \<and> slotNo (curRec s) < int (length (slot (pageAt s p)))
            \<and> slot (pageAt s p) ! nat (slotNo (curRec s)) \<noteq> None)
      \<longrightarrow> HeapFileScan_getRecord s = Some (INVALIDSLOTNO, None))
   \<and> (curPage s = None \<longrightarrow> HeapFileScan_getRecord s = None)"
  by (auto simp add: HeapFileScan_getRecord_def Page_getRecord_def statusOf_def valueOf_def Let_def)

lemma exAtFirst_fields:
  "curPage exAtFirst = Some 2" "curRec exAtFirst = \<lparr>pageNo = 2, slotNo = 0\<rparr>"
  "filePages exAtFirst = filePages exScan1" "hdrImage exAtFirst = hdrImage exScan1"
  "curPageNo exAtFirst = 2" "pinned exAtFirst = [2, 1]" "filter' exAtFirst = None"
  "bufLog exAtFirst = bufLog exScan1" "curDirtyFlag exAtFirst = False"
  by (simp_all add: exAtFirst_def scanNext_def exScan1_fields scanLoop.simps scanStep_def
        getAndMatch_def matchRec_def page_defs exPage_def NULLRID_def)

text \<open>
  Instances: the scan positioned on its first record, the scan just opened (on no
  record yet), and the scan after \<^verbatim>\<open>endScan\<close>.
\<close>

theorem HeapFileScan_getRecord_pinned_witness:
  "HeapFileScan_getRecord exAtFirst = Some (OK, Some [5, 0, 0, 0])
   \<and> HeapFileScan_getRecord exScan1 = Some (INVALIDSLOTNO, None)
   \<and> HeapFileScan_getRecord exEnded = None"
proof -
  have 1: "HeapFileScan_getRecord exAtFirst = Some (OK, Some [5, 0, 0, 0])"
    using HeapFileScan_getRecord_pinned [of exAtFirst 2 "[5, 0, 0, 0]"]
    by (simp add: exAtFirst_fields exScan1_fields pageAt_def exPage_def)
  have 2: "HeapFileScan_getRecord exScan1 = Some (INVALIDSLOTNO, None)"
    using HeapFileScan_getRecord_pinned [of exScan1 2]
    by (simp add: exScan1_fields NULLRID_def)
  have 3: "HeapFileScan_getRecord exEnded = None"
    using HeapFileScan_getRecord_pinned [of exEnded]
    by (simp add: exEnded_def endScan_def exScan1_fields unPinPage_def)
  from 1 2 3 show ?thesis by blast
qed

text \<open>
  The claim promises a failure status when no page is pinned. After \<^verbatim>\<open>endScan\<close> no
  page is pinned, and the call returns nothing.
\<close>

theorem HeapFileScan_getRecord_no_page:
  "curPage (snd (endScan exScan1)) = None
   \<and> HeapFileScan_getRecord (snd (endScan exScan1)) = None"
  by (simp add: endScan_def exScan1_fields unPinPage_def HeapFileScan_getRecord_def)

text \<open>
  Claim C7 against the code. \<^verbatim>\<open>deleteRecord\<close> decrements the header's count and sets
  both dirty flags whatever the page-level delete returned. On the file with two
  records, deleting the current record twice gives \<open>OK\<close> and then \<open>INVALIDSLOTNO\<close>;
  the count goes from 2 to 0 while one record is still in the file.
\<close>

theorem deleteRecord_failed_delete_counts:
  "map_option fst (deleteRecord exAtFirst) = Some OK
   \<and> map_option (getRecCnt \<circ> snd) (deleteRecord exAtFirst) = Some 1
   \<and> map_option fst (Option.bind (deleteRecord exAtFirst) (\<lambda>(_, s). deleteRecord s))
        = Some INVALIDSLOTNO
   \<and> map_option (getRecCnt \<circ> snd) (Option.bind (deleteRecord exAtFirst) (\<lambda>(_, s). deleteRecord s))
        = Some 0
   \<and> map_option (\<lambda>(_, s). slot (pageAt s 2))
        (Option.bind (deleteRecord exAtFirst) (\<lambda>(_, s). deleteRecord s))
        = Some [None, Some [3, 0, 0, 0]]
   \<and> getRecCnt exAtFirst = 2"
  by (simp add: deleteRecord_def exAtFirst_fields exScan1_fields page_defs exPage_def Let_def
        getRecCnt_def exHdr_def)

subsection \<open>Slots of a page\<close>








subsection \<open>The buffer pool\<close>


lemma readCurPage_ok:
  "pageValid s p \<Longrightarrow> p \<in> set (pinned s) \<or> framesInUse s < numBufs s \<Longrightarrow>
   readCurPage s p =
     (OK, s\<lparr>pinned := p # pinned s, bufLog := bufLog s @ [EvRead p OK], curPage := Some p\<rparr>)"
  by (auto simp add: readCurPage_def readPage_def)

lemma framesInUse_le: "framesInUse s \<le> length (pinned s)"
  by (simp add: framesInUse_def)

subsection \<open>One pass of the scan loop\<close>



lemma scanStep_eof:
  assumes "curPage s = Some p"
    and "nextLive (pageAt s p) (nat (slotNo (curRec s) + 1)) = None"
    and "nextPage (pageAt s p) = -1"
  shows "scanStep s = Return FILEEOF None s"
  using assms by (simp add: scanStep_def Page_nextRecord_def Page_getNextPage_def)





subsection \<open>The unfiltered scan\<close>





lemma scanNext_positioned:
  "curPage s \<noteq> None \<Longrightarrow> 0 \<le> curPageNo s \<Longrightarrow> scanNext s = scanLoop s"
  by (auto simp add: scanNext_def)




subsection \<open>Opening a handle\<close>

lemma HeapFile_ctor_ok:
  assumes "fileExists this" "pageValid this (fileFirstPage this)"
    and "pageValid this (firstPage (hdrImage this))"
    and "length (pinned this) + 2 \<le> numBufs this"
  shows "HeapFile_ctor this = (OK, opened this)"
proof -
  let ?s2 = "this\<lparr>openCnt := Suc (openCnt this), headerPageNo := fileFirstPage this\<rparr>"
  have f1: "framesInUse ?s2 < numBufs ?s2"
    using framesInUse_le [of ?s2] assms(4) by simp
  have r1: "readPage ?s2 (fileFirstPage this) =
     (OK, ?s2\<lparr>pinned := fileFirstPage this # pinned this,
               bufLog := bufLog this @ [EvRead (fileFirstPage this) OK]\<rparr>)"
    using assms(2) f1 by (simp add: readPage_def pageValid_def)
  let ?s5 = "?s2\<lparr>pinned := fileFirstPage this # pinned this,
               bufLog := bufLog this @ [EvRead (fileFirstPage this) OK],
               hdrDirtyFlag := False, curPageNo := firstPage (hdrImage this)\<rparr>"
  have f2: "framesInUse ?s5 < numBufs ?s5"
    using framesInUse_le [of ?s5] assms(4) by simp
  have r2: "readCurPage ?s5 (firstPage (hdrImage this)) =
     (OK, ?s5\<lparr>pinned := firstPage (hdrImage this) # pinned ?s5,
               bufLog := bufLog ?s5 @ [EvRead (firstPage (hdrImage this)) OK],
               curPage := Some (firstPage (hdrImage this))\<rparr>)"
    using assms(3) f2 by (intro readCurPage_ok) (simp_all add: pageValid_def)
  show ?thesis
    using assms(1)
    apply (simp add: HeapFile_ctor_def Let_def r1)
    apply (simp add: r2 [simplified])
    apply (simp add: opened_def)
    done
qed


subsection \<open>The page chain and its records\<close>










subsection \<open>The full scan\<close>





subsection \<open>The scan loop in general\<close>

lemma getAndMatch_cases:
  "getAndMatch s p = Return INVALIDSLOTNO None s
   \<or> getAndMatch s p = Return OK (Some (curRec s)) s
   \<or> getAndMatch s p = Continue s
   \<or> getAndMatch s p = Fault"
  by (auto simp add: getAndMatch_def Page_getRecord_def split: sum.split option.split)

lemma scanStep_null: "curPage s = None \<Longrightarrow> scanStep s = Fault"
  by (simp add: scanStep_def)

lemma scanStep_record:
  "curPage s = Some p \<Longrightarrow> nextLive (pageAt s p) (nat (slotNo (curRec s) + 1)) = Some j \<Longrightarrow>
   scanStep s = getAndMatch (s\<lparr>curRec := ridOf (pageAt s p) j\<rparr>) p"
  by (simp add: scanStep_def Page_nextRecord_def pageAt_def)

text \<open>The state in which \<^verbatim>\<open>scanNext\<close> calls \<^verbatim>\<open>readPage\<close> for the next page \<open>q\<close>.\<close>

lemma scanStep_move:
  assumes "curPage s = Some p"
    and "nextLive (pageAt s p) (nat (slotNo (curRec s) + 1)) = None"
    and "nextPage (pageAt s p) = q" "q \<noteq> -1"
  shows "scanStep s =
    (case readCurPage ((snd (unPinPage s (curPageNo s) (curDirtyFlag s)))
                          \<lparr>curPage := None, curPageNo := q\<rparr>) q of
       (status, s4) \<Rightarrow>
         if status \<noteq> OK then Return status None s4
         else
           (case Page_firstRecord (pageAt s4 q) of
              Inl _ \<Rightarrow> Continue (s4\<lparr>curDirtyFlag := False, curRec := NULLRID\<rparr>)
            | Inr firstRid \<Rightarrow> getAndMatch (s4\<lparr>curDirtyFlag := False, curRec := firstRid\<rparr>) q))"
proof -
  have fs: "Page_firstRecord pg = Inl NORECORDS \<or> (\<exists>r. Page_firstRecord pg = Inr r)" for pg
    by (simp add: Page_firstRecord_def split: option.split)
  obtain st1 s1 where u: "unPinPage s (curPageNo s) (curDirtyFlag s) = (st1, s1)"
    by (cases "unPinPage s (curPageNo s) (curDirtyFlag s)")
  obtain st4 s4 where r: "readCurPage (s1\<lparr>curPage := None, curPageNo := q\<rparr>) q = (st4, s4)"
    by (cases "readCurPage (s1\<lparr>curPage := None, curPageNo := q\<rparr>) q")
  show ?thesis
    using assms fs [of "pageAt s4 q"]
    by (auto simp add: scanStep_def Page_nextRecord_def Page_getNextPage_def u r Let_def pageAt_def)
qed


lemma readCurPage_status:
  "fst (readCurPage s p) = OK \<or> fst (readCurPage s p) = BADPAGENO
   \<or> fst (readCurPage s p) = BUFFEREXCEEDED"
  by (simp add: readCurPage_def readPage_def)

lemma getAndMatch_not_FILEEOF: "getAndMatch s p \<noteq> Return FILEEOF r s'"
  using getAndMatch_cases [of s p] by auto

lemma scanStep_FILEEOF:
  assumes "scanStep s = Return FILEEOF r s'"
  shows "r = None \<and> s' = s
    \<and> (\<exists>p. curPage s = Some p \<and> nextPage (pageAt s p) = -1)"
proof (cases "curPage s")
  case None
  with assms show ?thesis by (simp add: scanStep_null)
next
  case (Some p)
  show ?thesis
  proof (cases "nextLive (pageAt s p) (nat (slotNo (curRec s) + 1))")
    case (Some j)
    with \<open>curPage s = Some p\<close> assms show ?thesis
      by (simp add: scanStep_record getAndMatch_not_FILEEOF)
  next
    case None
    show ?thesis
    proof (cases "nextPage (pageAt s p) = -1")
      case True
      with \<open>curPage s = Some p\<close> None have "scanStep s = Return FILEEOF None s"
        by (rule scanStep_eof)
      with assms True \<open>curPage s = Some p\<close> show ?thesis by simp
    next
      case False
      let ?s3 = "(snd (unPinPage s (curPageNo s) (curDirtyFlag s)))
                          \<lparr>curPage := None, curPageNo := nextPage (pageAt s p)\<rparr>"
      obtain st4 s4 where r: "readCurPage ?s3 (nextPage (pageAt s p)) = (st4, s4)"
        by (cases "readCurPage ?s3 (nextPage (pageAt s p))")
      have st: "st4 = OK \<or> st4 = BADPAGENO \<or> st4 = BUFFEREXCEEDED"
        using readCurPage_status [of ?s3 "nextPage (pageAt s p)"] r by simp
      have "scanStep s \<noteq> Return FILEEOF r s'"
        using st
        by (auto simp add: scanStep_move [OF \<open>curPage s = Some p\<close> None refl False] r
              getAndMatch_not_FILEEOF split: sum.split)
      with assms show ?thesis by simp
    qed
  qed
qed

lemma scanLoop_FILEEOF:
  assumes "scanLoop s = Some res"
  shows "fst res = FILEEOF \<longrightarrow>
    fst (snd res) = None \<and> scanStep (snd (snd res)) = Return FILEEOF None (snd (snd res))"
proof (rule scanLoop.raw_induct [OF _ assms, where P = "\<lambda>x y. fst y = FILEEOF \<longrightarrow>
    fst (snd y) = None \<and> scanStep (snd (snd y)) = Return FILEEOF None (snd (snd y))"])
  fix loop :: "HeapFile \<Rightarrow> (Status \<times> RID option \<times> HeapFile) option" and s res
  assume IH: "\<And>x y. loop x = Some y \<Longrightarrow> fst y = FILEEOF \<longrightarrow>
    fst (snd y) = None \<and> scanStep (snd (snd y)) = Return FILEEOF None (snd (snd y))"
    and body: "(case scanStep s of Return status outRid s' \<Rightarrow> Some (status, outRid, s')
          | Continue s' \<Rightarrow> loop s' | Fault \<Rightarrow> None) = Some res"
  show "fst res = FILEEOF \<longrightarrow>
    fst (snd res) = None \<and> scanStep (snd (snd res)) = Return FILEEOF None (snd (snd res))"
  proof (cases "scanStep s")
    case (Return st r s')
    with body have res: "res = (st, r, s')" by simp
    show ?thesis
    proof
      assume "fst res = FILEEOF"
      with res Return have "scanStep s = Return FILEEOF r s'" by simp
      from scanStep_FILEEOF [OF this] this res
      show "fst (snd res) = None \<and> scanStep (snd (snd res)) = Return FILEEOF None (snd (snd res))"
        by simp
    qed
  next
    case (Continue s1)
    with body have "loop s1 = Some res" by simp
    then show ?thesis by (rule IH)
  next
    case Fault
    with body show ?thesis by simp
  qed
qed


lemma scanNext_exhausted: "curPageNo s < 0 \<Longrightarrow> scanNext s = Some (FILEEOF, None, s)"
  by (simp add: scanNext_def)

lemma scanNext_at_end:
  assumes "scanStep s = Return FILEEOF None s"
  shows "scanNext s = Some (FILEEOF, None, s)"
proof (cases "curPageNo s < 0")
  case True
  then show ?thesis by (rule scanNext_exhausted)
next
  case False
  from scanStep_FILEEOF [OF assms] have "curPage s \<noteq> None" by auto
  with False have "scanNext s = scanLoop s" by (simp add: scanNext_positioned)
  also have "\<dots> = Some (FILEEOF, None, s)"
    by (subst scanLoop.simps) (simp add: assms)
  finally show ?thesis .
qed

lemma readCurPage_filePages: "filePages (snd (readCurPage s p)) = filePages s"
  by (simp add: readCurPage_def readPage_def)

lemma scanNext_FILEEOF_cases:
  assumes "scanNext s = Some (FILEEOF, outRid, s')"
  shows "outRid = None
    \<and> (curPageNo s < 0 \<and> s' = s
       \<or> curPage s = None \<and> curPageNo s' = -1 \<and> curPage s' = None
         \<and> (firstPage (hdrImage s) = -1
            \<or> Page_firstRecord (pageAt s (firstPage (hdrImage s))) = Inl NORECORDS)
       \<or> scanStep s' = Return FILEEOF None s')"
proof (cases "curPageNo s < 0")
  case True
  with assms show ?thesis by (simp add: scanNext_exhausted)
next
  case nonneg: False
  show ?thesis
  proof (cases "curPage s")
    case (Some p)
    with nonneg assms have "scanLoop s = Some (FILEEOF, outRid, s')"
      by (simp add: scanNext_positioned)
    from scanLoop_FILEEOF [OF this] show ?thesis by simp
  next
    case None
    let ?fp = "firstPage (hdrImage s)"
    show ?thesis
    proof (cases "?fp = -1")
      case True
      with None nonneg assms show ?thesis
        by (auto simp add: scanNext_def)
    next
      case False
      obtain st2 s2 where r: "readCurPage (s\<lparr>curPageNo := ?fp\<rparr>) ?fp = (st2, s2)"
        by (cases "readCurPage (s\<lparr>curPageNo := ?fp\<rparr>) ?fp")
      have st: "st2 = OK \<or> st2 = BADPAGENO \<or> st2 = BUFFEREXCEEDED"
        using readCurPage_status [of "s\<lparr>curPageNo := ?fp\<rparr>" ?fp] r by simp
      let ?s3 = "s2\<lparr>curDirtyFlag := False, curRec := NULLRID\<rparr>"
      have ok: "st2 = OK"
        using st assms None nonneg False by (auto simp add: scanNext_def r)
      show ?thesis
      proof (cases "Page_firstRecord (pageAt ?s3 ?fp)")
        case (Inl e)
        then have e: "e = NORECORDS"
          by (simp add: Page_firstRecord_def split: option.splits)
        obtain st5 s5 where u: "unPinPage ?s3 (curPageNo ?s3) (curDirtyFlag ?s3) = (st5, s5)"
          by (cases "unPinPage ?s3 (curPageNo ?s3) (curDirtyFlag ?s3)")
        have "scanNext s = Some (FILEEOF, None, s5\<lparr>curPageNo := -1, curPage := None\<rparr>)"
          using None nonneg False ok Inl e u
          by (simp add: scanNext_def r Let_def statusOf_def)
        moreover have "pageAt ?s3 ?fp = pageAt s ?fp"
          using readCurPage_filePages [of "s\<lparr>curPageNo := ?fp\<rparr>" ?fp] r
          by (simp add: pageAt_def)
        ultimately show ?thesis using assms None Inl e by auto
      next
        case (Inr firstRid)
        let ?s4 = "?s3\<lparr>curRec := firstRid\<rparr>"
        have sn: "scanNext s =
          (case getAndMatch ?s4 ?fp of
             Return status outRid s' \<Rightarrow> Some (status, outRid, s')
           | Continue s' \<Rightarrow> scanLoop s'
           | Fault \<Rightarrow> None)"
          using None nonneg False ok Inr
          by (simp add: scanNext_def r Let_def statusOf_def)
        from getAndMatch_cases [of ?s4 ?fp] show ?thesis
        proof (elim disjE)
          assume "getAndMatch ?s4 ?fp = Return INVALIDSLOTNO None ?s4"
          with sn assms show ?thesis by simp
        next
          assume "getAndMatch ?s4 ?fp = Return OK (Some (curRec ?s4)) ?s4"
          with sn assms show ?thesis by simp
        next
          assume "getAndMatch ?s4 ?fp = Continue ?s4"
          with sn assms have "scanLoop ?s4 = Some (FILEEOF, outRid, s')" by simp
          from scanLoop_FILEEOF [OF this] show ?thesis by simp
        next
          assume "getAndMatch ?s4 ?fp = Fault"
          with sn assms show ?thesis by simp
        qed
      qed
    qed
  qed
qed

lemma scanNextTimes_fixed:
  "scanNext s = Some (status, outRid, s) \<Longrightarrow> scanNextTimes n s = Some s"
  by (induction n) simp_all


subsection \<open>Pins and unpins of a handle\<close>

text \<open>
  Claim C2 against the code. A scan is opened on the one-page file; \<^verbatim>\<open>getRecord\<close> is
  called with a RID on page 9, which the file does not have; then the handle is
  destroyed. \<^verbatim>\<open>getRecord\<close> unpins page 2, fails to read page 9 and returns with
  \<^verbatim>\<open>curPage\<close> still set, so the destructor unpins page 2 a second time, and the pool
  reports \<open>PAGENOTPINNED\<close>.
\<close>

theorem getRecord_failure_double_unpin:
  "map_option (\<lambda>(status, _, s). (status, curPage s, curPageNo s, pinned s, bufLog (HeapFileScan_dtor s)))
     (HeapFile_getRecord exScan1 \<lparr>pageNo = 9, slotNo = 0\<rparr>)
   = Some (BADPAGENO, Some 2, 2, [1],
       [EvRead 1 OK, EvRead 2 OK, EvUnPin 2 False OK, EvRead 9 BADPAGENO,
        EvUnPin 2 False PAGENOTPINNED, EvUnPin 1 False OK])"
  by (simp add: HeapFile_getRecord_def HeapFileScan_dtor_def endScan_def HeapFile_dtor_def
        ex_defs ctor_defs buf_defs)


subsection \<open>The order of unpin and pin in a page advance\<close>




lemma getAndMatch_state: "stepState (getAndMatch s p) = Some s' \<Longrightarrow> s' = s"
  using getAndMatch_cases [of s p] by (auto simp add: stepState_def)






lemma allocPage_ok:
  "framesInUse s < numBufs s \<Longrightarrow>
   allocPage s =
     (OK, int (length (filePages s)),
      s\<lparr>filePages := filePages s @ [\<lparr>slot = [], nextPage = 0, pageNum = 0\<rparr>],
        pinned := int (length (filePages s)) # pinned s,
        bufLog := bufLog s @ [EvAlloc (int (length (filePages s))) OK]\<rparr>)"
  by (simp add: allocPage_def Let_def)






lemma exScan3_fields:
  "curPage exScan3 = Some 2" "curPageNo exScan3 = 2" "curRec exScan3 = NULLRID"
  "filePages exScan3 = filePages exFile3"
  "pinned exScan3 = [2, 1]" "filter' exScan3 = None"
  "bufLog exScan3 = [EvRead 1 OK, EvRead 2 OK]" "curDirtyFlag exScan3 = False"
  "numBufs exScan3 = 3"
  by (simp_all add: exScan3_def exFile3_def exRaw_def ctor_defs buf_defs exHdr_def)

lemma exAtPageEnd_fields:
  "curPage exAtPageEnd = Some 2" "curRec exAtPageEnd = \<lparr>pageNo = 2, slotNo = 2\<rparr>"
  "filePages exAtPageEnd = filePages exFile3" "curPageNo exAtPageEnd = 2"
  "bufLog exAtPageEnd = [EvRead 1 OK, EvRead 2 OK]" "pinned exAtPageEnd = [2, 1]"
  "curDirtyFlag exAtPageEnd = False" "filter' exAtPageEnd = None" "numBufs exAtPageEnd = 3"
  by (simp_all add: exAtPageEnd_def numeral_2_eq_2 scanNext_def exScan3_fields scanLoop.simps
        scanStep_def getAndMatch_def matchRec_def page_defs exPage_def NULLRID_def
        exFile3_def exRaw_def)






subsection \<open>Overflow of an insertion\<close>

text \<open>
  What an overflow does in general: the new page gets the number after the last page
  of the file and the terminator as its link, the header's \<^verbatim>\<open>lastPage\<close>, \<^verbatim>\<open>pageCnt\<close>
  and \<^verbatim>\<open>recCnt\<close> are updated, and the page whose link is set to the new page is the
  current page \<open>p\<close> of the handle, whichever page of the chain that is; the link of
  every other page is left as it was.
\<close>

lemma Page_insertRecord_fresh:
  assumes "length rec \<le> PAGESIZE - DPFIXED"
  shows "Page_insertRecord \<lparr>slot = [], nextPage = nx, pageNum = q\<rparr> rec =
    Inr (\<lparr>pageNo = q, slotNo = 0\<rparr>, \<lparr>slot = [Some rec], nextPage = nx, pageNum = q\<rparr>)"
  using assms
  by (simp add: Page_insertRecord_def usedSpace_def pageSpace_def PAGESIZE_def DPFIXED_def
        sizeof_slot_def ridOf_def)

lemma insertCur_overflow_pages:
  assumes ns: "Page_insertRecord (pageAt s p) rec = Inl NOSPACE"
    and len: "length rec \<le> PAGESIZE - DPFIXED"
    and fr: "framesInUse s < numBufs s" and pin: "curPageNo s \<in> set (pinned s)"
    and pv: "pageValid s p"
  shows "fst (insertCur s p rec) = OK"
    and "fst (snd (insertCur s p rec)) = Some \<lparr>pageNo = int (length (filePages s)), slotNo = 0\<rparr>"
    and "filePages (snd (snd (insertCur s p rec))) =
      (filePages s)[nat p := (filePages s ! nat p)\<lparr>nextPage := int (length (filePages s))\<rparr>]
        @ [\<lparr>slot = [Some rec], nextPage = -1, pageNum = int (length (filePages s))\<rparr>]"
    and "hdrImage (snd (snd (insertCur s p rec))) =
      (hdrImage s)\<lparr>lastPage := int (length (filePages s)),
                   pageCnt := pageCnt (hdrImage s) + 1, recCnt := recCnt (hdrImage s) + 1\<rparr>"
proof -
  have lt: "nat p < length (filePages s)" using pv by (auto simp add: pageValid_def)
  note unf = insertCur_def ns [unfolded pageAt_def] allocPage_ok [OF fr] Let_def Page_setNextPage_def
        setPageAt_def unPinPage_def bumpRecCnt_def Page_init_def pageAt_def
        nth_append nth_list_update list_update_append Page_insertRecord_fresh [OF len]
  show "fst (insertCur s p rec) = OK" using pin lt by (simp add: unf)
  show "fst (snd (insertCur s p rec)) = Some \<lparr>pageNo = int (length (filePages s)), slotNo = 0\<rparr>"
    using pin lt by (simp add: unf)
  show "filePages (snd (snd (insertCur s p rec))) =
      (filePages s)[nat p := (filePages s ! nat p)\<lparr>nextPage := int (length (filePages s))\<rparr>]
        @ [\<lparr>slot = [Some rec], nextPage = -1, pageNum = int (length (filePages s))\<rparr>]"
    using pin lt by (simp add: unf)
  show "hdrImage (snd (snd (insertCur s p rec))) =
      (hdrImage s)\<lparr>lastPage := int (length (filePages s)),
                   pageCnt := pageCnt (hdrImage s) + 1, recCnt := recCnt (hdrImage s) + 1\<rparr>"
    using pin lt by (simp add: unf)
qed

lemma insertRecord_overflow_links:
  assumes cur: "curPage s = Some p"
    and ns: "Page_insertRecord (pageAt s p) rec = Inl NOSPACE"
    and len: "length rec \<le> PAGESIZE - DPFIXED"
    and fr: "framesInUse s < numBufs s" and pin: "curPageNo s \<in> set (pinned s)"
    and pv: "pageValid s p"
  shows "fst (insertRecord s rec) = OK"
    and "fst (snd (insertRecord s rec)) = Some \<lparr>pageNo = int (length (filePages s)), slotNo = 0\<rparr>"
    and "nextPage (pageAt (snd (snd (insertRecord s rec))) p) = int (length (filePages s))"
    and "nextPage (pageAt (snd (snd (insertRecord s rec))) (int (length (filePages s)))) = -1"
    and "pageValid s q \<Longrightarrow> q \<noteq> p \<Longrightarrow>
         nextPage (pageAt (snd (snd (insertRecord s rec))) q) = nextPage (pageAt s q)"
    and "lastPage (hdrImage (snd (snd (insertRecord s rec)))) = int (length (filePages s))"
    and "pageCnt (hdrImage (snd (snd (insertRecord s rec)))) = pageCnt (hdrImage s) + 1"
    and "recCnt (hdrImage (snd (snd (insertRecord s rec)))) = recCnt (hdrImage s) + 1"
proof -
  have eq: "insertRecord s rec = insertCur s p rec"
    using cur len by (simp add: insertRecord_def)
  have lt: "nat p < length (filePages s)" using pv by (auto simp add: pageValid_def)
  note ov = insertCur_overflow_pages [OF ns len fr pin pv]
  show "fst (insertRecord s rec) = OK" unfolding eq by (rule ov(1))
  show "fst (snd (insertRecord s rec)) = Some \<lparr>pageNo = int (length (filePages s)), slotNo = 0\<rparr>"
    unfolding eq by (rule ov(2))
  show "nextPage (pageAt (snd (snd (insertRecord s rec))) p) = int (length (filePages s))"
    unfolding eq using lt by (simp add: pageAt_def ov(3) nth_append)
  show "nextPage (pageAt (snd (snd (insertRecord s rec))) (int (length (filePages s)))) = -1"
    unfolding eq by (simp add: pageAt_def ov(3) nth_append)
  show "nextPage (pageAt (snd (snd (insertRecord s rec))) q) = nextPage (pageAt s q)"
    if "pageValid s q" "q \<noteq> p"
  proof -
    have "nat q < length (filePages s)" "nat q \<noteq> nat p"
      using that pv by (auto simp add: pageValid_def)
    then show ?thesis unfolding eq by (simp add: pageAt_def ov(3) nth_append)
  qed
  show "lastPage (hdrImage (snd (snd (insertRecord s rec)))) = int (length (filePages s))"
    unfolding eq by (simp add: ov(4))
  show "pageCnt (hdrImage (snd (snd (insertRecord s rec)))) = pageCnt (hdrImage s) + 1"
    unfolding eq by (simp add: ov(4))
  show "recCnt (hdrImage (snd (snd (insertRecord s rec)))) = recCnt (hdrImage s) + 1"
    unfolding eq by (simp add: ov(4))
qed

lemma exInsTwo_fields:
  "curPage exInsTwo = Some 2" "curPageNo exInsTwo = 2"
  "filePages exInsTwo = [exPage 0 [] 0, exPage 1 [] 0, exPage 2 [Some (replicate 500 0)] 3,
                         exPage 3 [Some [1, 2, 3]] (-1)]"
  "pinned exInsTwo = [2, 1]" "numBufs exInsTwo = 3"
  "curDirtyFlag exInsTwo = False"
  "hdrImage exInsTwo = exHdr 2 3 2 2"
  by (simp_all add: exInsTwo_def exFileTwo_def exRaw_def ctor_defs buf_defs exHdr_def)

text \<open>
  Claim C6 against the code. A handle for insertion is opened on a file of two data
  pages chained 2, 3, so the constructor makes the first page 2 the current page;
  page 2 accepts one more record of 300 bytes. Two such records are inserted. Both
  insertions succeed, the second on a new page 4, and \<^verbatim>\<open>pageCnt\<close>, \<^verbatim>\<open>lastPage\<close> and
  \<^verbatim>\<open>recCnt\<close> are updated; but the new page is linked behind the current page 2,
  not behind the old last page 3, whose link stays the terminator: the chain from
  the first page is now 2, 4, and page 3 with its record is no longer on it.
\<close>

theorem insertRecord_overflow_drops_tail:
  "(case insertRecord exInsTwo (replicate 300 7) of (st1, r1, s1) \<Rightarrow>
      (case insertRecord s1 (replicate 300 7) of (st2, r2, s2) \<Rightarrow>
         (st1, r1, st2, r2, map nextPage (filePages s2),
          lastPage (hdrImage exInsTwo), lastPage (hdrImage s2),
          pageCnt (hdrImage exInsTwo), pageCnt (hdrImage s2),
          recCnt (hdrImage exInsTwo), recCnt (hdrImage s2),
          chainFrom (filePages exInsTwo) (firstPage (hdrImage exInsTwo)) [2, 3],
          chainFrom (filePages s2) (firstPage (hdrImage s2)) [2, 4])))
   = (OK, Some \<lparr>pageNo = 2, slotNo = 1\<rparr>, OK, Some \<lparr>pageNo = 4, slotNo = 0\<rparr>,
      [0, 0, 4, -1, -1], 3, 4, 2, 3, 2, 4, True, True)"
  by (simp add: insertRecord_def insertCur_def exInsTwo_fields Page_insertRecord_def
        usedSpace_def pageSpace_def PAGESIZE_def DPFIXED_def sizeof_slot_def
        page_defs exPage_def exHdr_def bumpRecCnt_def allocPage_def unPinPage_def
        framesInUse_def Let_def)

subsection \<open>Scans that differ in what scanNext does not read\<close>

lemma scanView_pageAt: "scanView a = scanView b \<Longrightarrow> pageAt a p = pageAt b p"
  by (simp add: scanView_def pageAt_def)

lemma scanView_matchRec:
  assumes "scanView a = scanView b"
  shows "matchRec a rec = matchRec b rec"
proof -
  have eqs: "filter' a = filter' b" "offset a = offset b" "length' a = length' b"
    "type a = type b" "op a = op b"
    using assms by (simp_all add: scanView_def)
  show ?thesis unfolding matchRec_def eqs by (rule refl)
qed

lemma scanView_curRec: "scanView a = scanView b \<Longrightarrow> curRec a = curRec b"
  by (simp add: scanView_def)

lemma scanView_curPage: "scanView a = scanView b \<Longrightarrow> curPage a = curPage b"
  by (simp add: scanView_def)

lemma scanView_curPageNo: "scanView a = scanView b \<Longrightarrow> curPageNo a = curPageNo b"
  by (simp add: scanView_def)

lemma scanView_upd:
  assumes "scanView a = scanView b"
  shows "scanView (a\<lparr>curRec := r\<rparr>) = scanView (b\<lparr>curRec := r\<rparr>)"
    and "scanView (a\<lparr>curPage := cp, curPageNo := q\<rparr>) = scanView (b\<lparr>curPage := cp, curPageNo := q\<rparr>)"
    and "scanView (a\<lparr>curDirtyFlag := d, curRec := r\<rparr>) = scanView (b\<lparr>curDirtyFlag := d', curRec := r\<rparr>)"
  using assms by (simp_all add: scanView_def)

lemma scanView_unPinPage:
  "scanView a = scanView b \<Longrightarrow>
   scanView (snd (unPinPage a p d)) = scanView (snd (unPinPage b p d'))"
  by (simp add: scanView_def unPinPage_def)

lemma scanView_readCurPage:
  assumes "scanView a = scanView b"
  shows "fst (readCurPage a p) = fst (readCurPage b p)"
    and "scanView (snd (readCurPage a p)) = scanView (snd (readCurPage b p))"
  using assms
  by (simp_all add: scanView_def readCurPage_def readPage_def pageValid_def framesInUse_def)

lemma getAndMatch_view:
  assumes "scanView a = scanView b"
  shows "stepRel (getAndMatch a p) (getAndMatch b p)"
  using assms
  by (simp add: getAndMatch_def scanView_pageAt [OF assms] scanView_curRec [OF assms]
        scanView_matchRec [OF assms] split: sum.split option.split)

lemma scanStep_view:
  assumes v: "scanView a = scanView b"
  shows "stepRel (scanStep a) (scanStep b)"
proof (cases "curPage a")
  case None
  then have "curPage b = None" using scanView_curPage [OF v] by simp
  with None show ?thesis by (simp add: scanStep_null)
next
  case (Some p)
  then have cb: "curPage b = Some p" using scanView_curPage [OF v] by simp
  note pg = scanView_pageAt [OF v, of p] and cr = scanView_curRec [OF v]
  show ?thesis
  proof (cases "nextLive (pageAt a p) (nat (slotNo (curRec a) + 1))")
    case (Some j)
    then have nb: "nextLive (pageAt b p) (nat (slotNo (curRec b) + 1)) = Some j"
      by (simp add: pg cr)
    show ?thesis
      unfolding scanStep_record [OF \<open>curPage a = Some p\<close> Some] scanStep_record [OF cb nb] pg
      by (rule getAndMatch_view) (rule scanView_upd(1) [OF v])
  next
    case None
    then have nb: "nextLive (pageAt b p) (nat (slotNo (curRec b) + 1)) = None"
      by (simp add: pg cr)
    show ?thesis
    proof (cases "nextPage (pageAt a p) = -1")
      case True
      then have tb: "nextPage (pageAt b p) = -1" by (simp add: pg)
      show ?thesis
        unfolding scanStep_eof [OF \<open>curPage a = Some p\<close> None True] scanStep_eof [OF cb nb tb]
        using v by simp
    next
      case False
      then have fb: "nextPage (pageAt b p) \<noteq> -1" by (simp add: pg)
      let ?q = "nextPage (pageAt b p)"
      have qa: "nextPage (pageAt a p) = ?q" by (simp add: pg)
      let ?a3 = "(snd (unPinPage a (curPageNo a) (curDirtyFlag a)))\<lparr>curPage := None, curPageNo := ?q\<rparr>"
      let ?b3 = "(snd (unPinPage b (curPageNo b) (curDirtyFlag b)))\<lparr>curPage := None, curPageNo := ?q\<rparr>"
      have v3: "scanView ?a3 = scanView ?b3"
        unfolding scanView_curPageNo [OF v]
        by (rule scanView_upd(2)) (rule scanView_unPinPage [OF v])
      obtain sta a4 where ra: "readCurPage ?a3 ?q = (sta, a4)" by (cases "readCurPage ?a3 ?q")
      obtain stb b4 where rb: "readCurPage ?b3 ?q = (stb, b4)" by (cases "readCurPage ?b3 ?q")
      from scanView_readCurPage [OF v3, of ?q] ra rb
      have st: "sta = stb" and v4: "scanView a4 = scanView b4" by simp_all
      have pg4: "pageAt a4 ?q = pageAt b4 ?q" by (rule scanView_pageAt [OF v4])
      have ma: "scanStep a = (if sta \<noteq> OK then Return sta None a4
         else (case Page_firstRecord (pageAt a4 ?q) of
              Inl _ \<Rightarrow> Continue (a4\<lparr>curDirtyFlag := False, curRec := NULLRID\<rparr>)
            | Inr firstRid \<Rightarrow> getAndMatch (a4\<lparr>curDirtyFlag := False, curRec := firstRid\<rparr>) ?q))"
        using scanStep_move [OF \<open>curPage a = Some p\<close> None qa fb] ra by simp
      have mb: "scanStep b = (if stb \<noteq> OK then Return stb None b4
         else (case Page_firstRecord (pageAt b4 ?q) of
              Inl _ \<Rightarrow> Continue (b4\<lparr>curDirtyFlag := False, curRec := NULLRID\<rparr>)
            | Inr firstRid \<Rightarrow> getAndMatch (b4\<lparr>curDirtyFlag := False, curRec := firstRid\<rparr>) ?q))"
        using scanStep_move [OF cb nb refl fb] rb by simp
      show ?thesis
      proof (cases "stb = OK")
        case False
        then show ?thesis unfolding ma mb st using v4 by simp
      next
        case True
        show ?thesis
        proof (cases "Page_firstRecord (pageAt b4 ?q)")
          case (Inl e)
          show ?thesis unfolding ma mb st pg4 using True Inl
            by (simp add: scanView_upd(3) [OF v4])
        next
          case (Inr firstRid)
          have "stepRel (getAndMatch (a4\<lparr>curDirtyFlag := False, curRec := firstRid\<rparr>) ?q)
                  (getAndMatch (b4\<lparr>curDirtyFlag := False, curRec := firstRid\<rparr>) ?q)"
            by (rule getAndMatch_view) (rule scanView_upd(3) [OF v4])
          then show ?thesis unfolding ma mb st pg4 using True Inr by simp
        qed
      qed
    qed
  qed
qed

lemma scanLoop_view:
  assumes "scanLoop a = Some res"
  shows "\<forall>b. scanView a = scanView b \<longrightarrow>
    (\<exists>b'. scanLoop b = Some (fst res, fst (snd res), b') \<and> scanView (snd (snd res)) = scanView b')"
proof (rule scanLoop.raw_induct [OF _ assms, where P = "\<lambda>x y. \<forall>b. scanView x = scanView b \<longrightarrow>
    (\<exists>b'. scanLoop b = Some (fst y, fst (snd y), b') \<and> scanView (snd (snd y)) = scanView b')"])
  fix loop :: "HeapFile \<Rightarrow> (Status \<times> RID option \<times> HeapFile) option" and a res
  assume IH: "\<And>x y. loop x = Some y \<Longrightarrow> \<forall>b. scanView x = scanView b \<longrightarrow>
    (\<exists>b'. scanLoop b = Some (fst y, fst (snd y), b') \<and> scanView (snd (snd y)) = scanView b')"
    and body: "(case scanStep a of Return status outRid s' \<Rightarrow> Some (status, outRid, s')
          | Continue s' \<Rightarrow> loop s' | Fault \<Rightarrow> None) = Some res"
  show "\<forall>b. scanView a = scanView b \<longrightarrow>
    (\<exists>b'. scanLoop b = Some (fst res, fst (snd res), b') \<and> scanView (snd (snd res)) = scanView b')"
  proof (intro allI impI)
    fix b assume v: "scanView a = scanView b"
    note rel = scanStep_view [OF v]
    show "\<exists>b'. scanLoop b = Some (fst res, fst (snd res), b') \<and> scanView (snd (snd res)) = scanView b'"
    proof (cases "scanStep a")
      case (Return st r a')
      with body have res: "res = (st, r, a')" by simp
      from rel Return obtain b' where sb: "scanStep b = Return st r b'" and v': "scanView a' = scanView b'"
        by (cases "scanStep b") simp_all
      have "scanLoop b = Some (st, r, b')" by (subst scanLoop.simps) (simp add: sb)
      with res v' show ?thesis by simp
    next
      case (Continue a')
      with body have l: "loop a' = Some res" by simp
      from rel Continue obtain b' where sb: "scanStep b = Continue b'" and v': "scanView a' = scanView b'"
        by (cases "scanStep b") simp_all
      have "scanLoop b = scanLoop b'" by (subst scanLoop.simps) (simp add: sb)
      with IH [OF l, rule_format, OF v'] show ?thesis by simp
    next
      case Fault
      with body show ?thesis by simp
    qed
  qed
qed

lemma scanLoop_same:
  assumes v: "scanView a = scanView b"
  shows "map_option (\<lambda>(st, r, _). (st, r)) (scanLoop a) = map_option (\<lambda>(st, r, _). (st, r)) (scanLoop b)"
proof (cases "scanLoop a")
  case (Some res)
  from scanLoop_view [OF Some, rule_format, OF v] Some show ?thesis
    by (auto simp add: split_beta)
next
  case None
  show ?thesis
  proof (cases "scanLoop b")
    case (Some res)
    from scanLoop_view [OF Some, rule_format, OF v [symmetric]] None show ?thesis by auto
  next
    case None
    with \<open>scanLoop a = None\<close> show ?thesis by simp
  qed
qed

subsection \<open>What the calls of scanNext keep\<close>

lemma readCurPage_bad:
  "\<not> pageValid s p \<Longrightarrow>
   readCurPage s p = (BADPAGENO, s\<lparr>bufLog := bufLog s @ [EvRead p BADPAGENO]\<rparr>)"
  by (simp add: readCurPage_def readPage_def)

lemma getAndMatch_Return: "getAndMatch x p = Return st r t' \<Longrightarrow> t' = x"
  using getAndMatch_state [of x p t'] by (simp add: stepState_def)

lemma getAndMatch_Continue: "getAndMatch x p = Continue t' \<Longrightarrow> t' = x"
  using getAndMatch_state [of x p t'] by (simp add: stepState_def)

lemma scanFixed_pageValid: "scanFixed a = scanFixed b \<Longrightarrow> pageValid a p = pageValid b p"
  by (simp add: scanFixed_def pageValid_def)

text \<open>The state a pass of the loop ends in, for a scan that is on a page.\<close>

lemma scanStep_onPage:
  assumes on: "onPage rest t" and st: "stepState (scanStep t) = Some t'"
  shows "scanFixed t' = scanFixed t \<and> (onPage rest t' \<or> offPage rest t')
    \<and> (\<forall>c. scanStep t = Continue c \<longrightarrow> onPage rest t')"
proof -
  let ?p = "curPageNo t"
  have cp: "curPage t = Some ?p" and pin: "pinned t = ?p # rest"
    and fr: "length rest < numBufs t"
    using on by (simp_all add: onPage_def)
  show ?thesis
  proof (cases "nextLive (pageAt t ?p) (nat (slotNo (curRec t) + 1))")
    case (Some j)
    let ?x = "t\<lparr>curRec := ridOf (pageAt t ?p) j\<rparr>"
    have "t' = ?x"
      using st by (auto simp add: scanStep_record [OF cp Some] dest: getAndMatch_state)
    with on show ?thesis by (simp add: scanFixed_def onPage_def pageValid_def)
  next
    case None
    show ?thesis
    proof (cases "nextPage (pageAt t ?p) = -1")
      case True
      have "scanStep t = Return FILEEOF None t" by (rule scanStep_eof [OF cp None True])
      with st have "t' = t" by (simp add: stepState_def)
      with on \<open>scanStep t = Return FILEEOF None t\<close> show ?thesis by simp
    next
      case False
      let ?q = "nextPage (pageAt t ?p)"
      let ?s1 = "t\<lparr>pinned := rest, bufLog := bufLog t @ [EvUnPin ?p (curDirtyFlag t) OK]\<rparr>"
      let ?s3 = "?s1\<lparr>curPage := None, curPageNo := ?q\<rparr>"
      have u: "unPinPage t ?p (curDirtyFlag t) = (OK, ?s1)"
        by (simp add: unPinPage_def pin)
      have mv: "scanStep t =
        (case readCurPage ?s3 ?q of
           (status, s4) \<Rightarrow>
             if status \<noteq> OK then Return status None s4
             else
               (case Page_firstRecord (pageAt s4 ?q) of
                  Inl _ \<Rightarrow> Continue (s4\<lparr>curDirtyFlag := False, curRec := NULLRID\<rparr>)
                | Inr firstRid \<Rightarrow> getAndMatch (s4\<lparr>curDirtyFlag := False, curRec := firstRid\<rparr>) ?q))"
        using scanStep_move [OF cp None refl False] u by simp
      show ?thesis
      proof (cases "pageValid t ?q")
        case False
        have "\<not> pageValid ?s3 ?q" using False by (simp add: pageValid_def)
        from readCurPage_bad [OF this] mv
        have "scanStep t = Return BADPAGENO None (?s3\<lparr>bufLog := bufLog ?s3 @ [EvRead ?q BADPAGENO]\<rparr>)"
          by simp
        with st have t': "t' = ?s3\<lparr>bufLog := bufLog ?s3 @ [EvRead ?q BADPAGENO]\<rparr>"
          and nc: "\<forall>c. scanStep t \<noteq> Continue c"
          by (simp_all add: stepState_def)
        have "offPage rest t'" using False fr by (simp add: t' offPage_def pageValid_def)
        moreover have "scanFixed t' = scanFixed t" by (simp add: t' scanFixed_def)
        ultimately show ?thesis using nc by simp
      next
        case True
        let ?s4 = "?s3\<lparr>pinned := ?q # pinned ?s3, bufLog := bufLog ?s3 @ [EvRead ?q OK],
                       curPage := Some ?q\<rparr>"
        have pv: "pageValid ?s3 ?q" using True by (simp add: pageValid_def)
        have "framesInUse ?s3 < numBufs ?s3"
          using framesInUse_le [of ?s3] fr by simp
        then have r: "readCurPage ?s3 ?q = (OK, ?s4)"
          using readCurPage_ok [OF pv] by simp
        have ex: "\<exists>r. t' = ?s4\<lparr>curDirtyFlag := False, curRec := r\<rparr>"
        proof (cases "Page_firstRecord (pageAt ?s4 ?q)")
          case (Inl e)
          with mv r st show ?thesis by (auto simp add: stepState_def)
        next
          case (Inr firstRid)
          with mv r have "scanStep t = getAndMatch (?s4\<lparr>curDirtyFlag := False, curRec := firstRid\<rparr>) ?q"
            by simp
          with st show ?thesis by (auto dest: getAndMatch_state)
        qed
        then obtain r' where t': "t' = ?s4\<lparr>curDirtyFlag := False, curRec := r'\<rparr>" ..
        have "onPage rest t'" using True fr by (simp add: t' onPage_def pageValid_def)
        moreover have "scanFixed t' = scanFixed t" by (simp add: t' scanFixed_def)
        ultimately show ?thesis by simp
      qed
    qed
  qed
qed

lemma scanLoop_onPage:
  assumes "scanLoop t = Some res"
  shows "onPage rest t \<longrightarrow>
    scanFixed (snd (snd res)) = scanFixed t
    \<and> (onPage rest (snd (snd res)) \<or> offPage rest (snd (snd res)))"
proof (rule scanLoop.raw_induct [OF _ assms, where P = "\<lambda>x y. onPage rest x \<longrightarrow>
    scanFixed (snd (snd y)) = scanFixed x
    \<and> (onPage rest (snd (snd y)) \<or> offPage rest (snd (snd y)))"])
  fix loop :: "HeapFile \<Rightarrow> (Status \<times> RID option \<times> HeapFile) option" and t res
  assume IH: "\<And>x y. loop x = Some y \<Longrightarrow> onPage rest x \<longrightarrow>
    scanFixed (snd (snd y)) = scanFixed x
    \<and> (onPage rest (snd (snd y)) \<or> offPage rest (snd (snd y)))"
    and body: "(case scanStep t of Return status outRid s' \<Rightarrow> Some (status, outRid, s')
          | Continue s' \<Rightarrow> loop s' | Fault \<Rightarrow> None) = Some res"
  show "onPage rest t \<longrightarrow>
    scanFixed (snd (snd res)) = scanFixed t
    \<and> (onPage rest (snd (snd res)) \<or> offPage rest (snd (snd res)))"
  proof
    assume on: "onPage rest t"
    show "scanFixed (snd (snd res)) = scanFixed t
      \<and> (onPage rest (snd (snd res)) \<or> offPage rest (snd (snd res)))"
    proof (cases "scanStep t")
      case (Return st r t')
      with body have res: "res = (st, r, t')" by simp
      from Return have "stepState (scanStep t) = Some t'" by (simp add: stepState_def)
      from scanStep_onPage [OF on this] res show ?thesis by simp
    next
      case (Continue t')
      with body have l: "loop t' = Some res" by simp
      from Continue have "stepState (scanStep t) = Some t'" by (simp add: stepState_def)
      from scanStep_onPage [OF on this] Continue
      have f: "scanFixed t' = scanFixed t" and on': "onPage rest t'" by simp_all
      from IH [OF l] on' f show ?thesis by simp
    next
      case Fault
      with body show ?thesis by simp
    qed
  qed
qed

lemma onPage_positioned: "onPage rest t \<Longrightarrow> curPage t \<noteq> None \<and> 0 \<le> curPageNo t"
  by (simp add: onPage_def pageValid_def)

lemma offPage_noPage: "offPage rest t \<Longrightarrow> noPage rest t"
  by (simp add: offPage_def noPage_def)

lemma scanNext_noPage:
  assumes off: "noPage rest t" and sn: "scanNext t = Some (st, r, t')"
  shows "scanFixed t' = scanFixed t \<and> (onPage rest t' \<or> offPage rest t')"
proof -
  have cp: "curPage t = None" and pin: "pinned t = rest" and fr: "length rest < numBufs t"
    using off by (simp_all add: noPage_def)
  show ?thesis
  proof (cases "curPageNo t < 0")
    case True
    with sn have "t' = t" by (simp add: scanNext_def)
    with off True show ?thesis by (simp add: offPage_def noPage_def pageValid_def)
  next
    case False
    let ?f = "firstPage (hdrImage t)"
    let ?s1 = "t\<lparr>curPageNo := ?f\<rparr>"
    show ?thesis
    proof (cases "?f = -1")
      case True
      with sn False cp have "t' = ?s1" by (simp add: scanNext_def Let_def)
      then show ?thesis using True pin fr cp
        by (simp add: scanFixed_def offPage_def pageValid_def)
    next
      case nm: False
      show ?thesis
      proof (cases "pageValid t ?f")
        case False
        have "\<not> pageValid ?s1 ?f" using False by (simp add: pageValid_def)
        from readCurPage_bad [OF this] sn \<open>\<not> curPageNo t < 0\<close> cp nm
        have "t' = ?s1\<lparr>bufLog := bufLog ?s1 @ [EvRead ?f BADPAGENO]\<rparr>"
          by (simp add: scanNext_def Let_def)
        then show ?thesis using False pin fr cp
          by (simp add: scanFixed_def offPage_def pageValid_def)
      next
        case True
        let ?s2 = "?s1\<lparr>pinned := ?f # rest, bufLog := bufLog ?s1 @ [EvRead ?f OK],
                       curPage := Some ?f\<rparr>"
        let ?s3 = "?s2\<lparr>curDirtyFlag := False, curRec := NULLRID\<rparr>"
        have pv: "pageValid ?s1 ?f" using True by (simp add: pageValid_def)
        have "framesInUse ?s1 < numBufs ?s1"
          using framesInUse_le [of ?s1] fr pin by simp
        then have rd: "readCurPage ?s1 ?f = (OK, ?s2)"
          using readCurPage_ok [OF pv] pin by simp
        show ?thesis
        proof (cases "Page_firstRecord (pageAt ?s3 ?f)")
          case (Inl e)
          then have e: "e = NORECORDS"
            by (simp add: Page_firstRecord_def split: option.splits)
          let ?s5 = "?s3\<lparr>pinned := rest, bufLog := bufLog ?s3 @ [EvUnPin ?f False OK]\<rparr>"
          have "unPinPage ?s3 ?f False = (OK, ?s5)" by (simp add: unPinPage_def)
          with sn \<open>\<not> curPageNo t < 0\<close> cp nm rd Inl e
          have "t' = ?s5\<lparr>curPageNo := -1, curPage := None\<rparr>"
            by (simp add: scanNext_def Let_def statusOf_def)
          then show ?thesis using fr
            by (simp add: scanFixed_def offPage_def pageValid_def)
        next
          case (Inr firstRid)
          let ?s4 = "?s3\<lparr>curRec := firstRid\<rparr>"
          have on4: "onPage rest ?s4" using True fr by (simp add: onPage_def pageValid_def)
          have f4: "scanFixed ?s4 = scanFixed t" by (simp add: scanFixed_def)
          from sn \<open>\<not> curPageNo t < 0\<close> cp nm rd Inr
          have sn': "(case getAndMatch ?s4 ?f of
                      Return status outRid s' \<Rightarrow> Some (status, outRid, s')
                    | Continue s' \<Rightarrow> scanLoop s'
                    | Fault \<Rightarrow> None) = Some (st, r, t')"
            by (simp add: scanNext_def Let_def statusOf_def)
          show ?thesis
          proof (cases "getAndMatch ?s4 ?f")
            case (Return st1 r1 x)
            with sn' have "t' = x" by simp
            with getAndMatch_Return [OF Return] on4 f4 show ?thesis by simp
          next
            case (Continue x)
            with sn' have l: "scanLoop x = Some (st, r, t')" by simp
            from getAndMatch_Continue [OF Continue] have x: "x = ?s4" .
            from scanLoop_onPage [OF l [unfolded x], of rest] on4 f4 show ?thesis by simp
          next
            case Fault
            with sn' show ?thesis by simp
          qed
        qed
      qed
    qed
  qed
qed

lemma scanNext_inv:
  assumes "onPage rest t \<or> noPage rest t" and sn: "scanNext t = Some (st, r, t')"
  shows "scanFixed t' = scanFixed t \<and> (onPage rest t' \<or> offPage rest t')"
  using assms(1)
proof
  assume on: "onPage rest t"
  with sn have "scanLoop t = Some (st, r, t')"
    using scanNext_positioned [of t] onPage_positioned [OF on] by simp
  from scanLoop_onPage [OF this, of rest] on show ?thesis by simp
next
  assume "noPage rest t"
  then show ?thesis using sn by (rule scanNext_noPage)
qed

lemma scanNextTimes_inv:
  "scanNextTimes n t = Some t' \<Longrightarrow> onPage rest t \<or> offPage rest t \<Longrightarrow>
   scanFixed t' = scanFixed t \<and> (onPage rest t' \<or> offPage rest t')"
proof (induction n arbitrary: t)
  case 0
  then show ?case by simp
next
  case (Suc n)
  from Suc.prems(1) obtain st r t1 where sn: "scanNext t = Some (st, r, t1)"
    and rest: "scanNextTimes n t1 = Some t'"
    by (auto simp add: Option.bind_eq_Some_conv)
  from Suc.prems(2) have "onPage rest t \<or> noPage rest t" by (auto dest: offPage_noPage)
  from scanNext_inv [OF this sn]
  have f1: "scanFixed t1 = scanFixed t" and i1: "onPage rest t1 \<or> offPage rest t1" by simp_all
  from Suc.IH [OF rest i1] f1 show ?case by simp
qed

subsection \<open>Mark and reset\<close>

text \<open>
  A scan opened by the constructor is on a page, and so is a scan after any call of
  \<^verbatim>\<open>scanNext\<close> that leaves a page current; \<open>rest\<close> are the pins below that of the
  current page (the header page, and what was pinned before the file was opened).
\<close>

lemma HeapFileScan_ctor_onPage:
  assumes "fileExists this" "pageValid this (fileFirstPage this)"
    and "pageValid this (firstPage (hdrImage this))"
    and "length (pinned this) + 2 \<le> numBufs this"
  shows "fst (HeapFileScan_ctor this) = OK"
    and "onPage (fileFirstPage this # pinned this) (snd (HeapFileScan_ctor this))"
  using assms(3,4)
  by (simp_all add: HeapFileScan_ctor_def HeapFile_ctor_ok [OF assms] onPage_def opened_def
        pageValid_def)

lemma scanNext_onPage:
  assumes "onPage rest s" and "scanNext s = Some (st, r, s')" and "curPage s' \<noteq> None"
  shows "onPage rest s'"
  using scanNext_inv [OF disjI1 [OF assms(1)] assms(2)] assms(3)
  by (auto simp add: offPage_def)

lemma resetScan_same_page:
  "markedPageNo t = curPageNo t \<Longrightarrow> resetScan t = (OK, t\<lparr>curRec := markedRec t\<rparr>)"
  by (simp add: resetScan_def)

lemma resetScan_restores:
  assumes K: "onPage rest t \<or> offPage rest t" and mv: "pageValid t (markedPageNo t)"
  shows "fst (resetScan t) = OK \<and> scanFixed (snd (resetScan t)) = scanFixed t
    \<and> onPage rest (snd (resetScan t))
    \<and> curPageNo (snd (resetScan t)) = markedPageNo t
    \<and> curRec (snd (resetScan t)) = markedRec t"
proof (cases "markedPageNo t = curPageNo t")
  case True
  with mv K have on: "onPage rest t" by (auto simp add: offPage_def)
  show ?thesis
    unfolding resetScan_same_page [OF True]
    using on True by (simp add: scanFixed_def onPage_def pageValid_def)
next
  case False
  let ?m = "markedPageNo t"
  have fr: "length rest < numBufs t" using K by (auto simp add: onPage_def offPage_def)
  obtain s1 where s1: "(if curPage t \<noteq> None then unPinPage t (curPageNo t) (curDirtyFlag t)
               else (OK, t)) = (OK, s1)"
    and p1: "pinned s1 = rest" and f1: "scanFixed s1 = scanFixed t"
  proof (cases "curPage t")
    case None
    with K have "pinned t = rest" by (simp add: onPage_def offPage_def)
    with None that [of t] show ?thesis by simp
  next
    case (Some p)
    with K have pin: "pinned t = curPageNo t # rest" by (simp add: onPage_def offPage_def)
    let ?s1 = "t\<lparr>pinned := rest,
                  bufLog := bufLog t @ [EvUnPin (curPageNo t) (curDirtyFlag t) OK]\<rparr>"
    have "unPinPage t (curPageNo t) (curDirtyFlag t) = (OK, ?s1)"
      by (simp add: unPinPage_def pin)
    with Some that [of ?s1] show ?thesis by (simp add: scanFixed_def)
  qed
  let ?s2 = "s1\<lparr>curPageNo := markedPageNo s1, curRec := markedRec s1\<rparr>"
  have m1: "markedPageNo s1 = ?m" "markedRec s1 = markedRec t" "numBufs s1 = numBufs t"
    using f1 by (simp_all add: scanFixed_def)
  have pv: "pageValid ?s2 ?m"
    using mv scanFixed_pageValid [OF f1, of ?m] by (simp add: pageValid_def)
  have "framesInUse ?s2 < numBufs ?s2"
    using framesInUse_le [of ?s2] fr p1 m1 by simp
  then have rd: "readCurPage ?s2 ?m =
      (OK, ?s2\<lparr>pinned := ?m # pinned ?s2, bufLog := bufLog ?s2 @ [EvRead ?m OK],
               curPage := Some ?m\<rparr>)"
    using readCurPage_ok [OF pv] by simp
  have rs: "resetScan t =
      (OK, ?s2\<lparr>pinned := ?m # pinned ?s2, bufLog := bufLog ?s2 @ [EvRead ?m OK],
               curPage := Some ?m, curDirtyFlag := False\<rparr>)"
    using False s1 rd by (simp add: resetScan_def Let_def m1)
  show ?thesis
    unfolding rs using f1 p1 m1 mv fr
    by (simp add: scanFixed_def onPage_def pageValid_def)
qed

text \<open>
  Claim C5. Let a scan be on a page: \<^verbatim>\<open>curPage\<close> points to page \<^verbatim>\<open>curPageNo\<close>, a page
  of the file, pinned last, and the pool has a frame left over the pins \<open>rest\<close>
  below it. After \<^verbatim>\<open>markScan\<close> there and any number \<open>n\<close> of calls of \<^verbatim>\<open>scanNext\<close>,
  whatever they return, \<^verbatim>\<open>resetScan\<close> succeeds and \<^verbatim>\<open>curPage\<close>, \<^verbatim>\<open>curPageNo\<close> and
  \<^verbatim>\<open>curRec\<close> are what they were at the mark; the next \<^verbatim>\<open>scanNext\<close> returns the status
  and the RID that \<^verbatim>\<open>scanNext\<close> at the mark returns (and does not return if that one
  does not). When the scan is on the marked page at the reset, \<^verbatim>\<open>resetScan\<close> changes
  \<^verbatim>\<open>curRec\<close> only: no page is unpinned, pinned or read.
\<close>

theorem mark_reset_law:
  assumes on: "onPage rest s" and calls: "scanNextTimes n (snd (markScan s)) = Some t"
  shows "fst (resetScan t) = OK
    \<and> curPage (snd (resetScan t)) = curPage s
    \<and> curPageNo (snd (resetScan t)) = curPageNo s
    \<and> curRec (snd (resetScan t)) = curRec s
    \<and> map_option (\<lambda>(status, outRid, _). (status, outRid)) (scanNext (snd (resetScan t)))
        = map_option (\<lambda>(status, outRid, _). (status, outRid)) (scanNext s)
    \<and> (curPageNo t = curPageNo s \<longrightarrow>
         snd (resetScan t) = t\<lparr>curRec := curRec s\<rparr>
         \<and> bufLog (snd (resetScan t)) = bufLog t \<and> pinned (snd (resetScan t)) = pinned t)"
proof -
  let ?m = "snd (markScan s)"
  let ?u = "snd (resetScan t)"
  have onm: "onPage rest ?m" using on by (simp add: markScan_def onPage_def pageValid_def)
  from scanNextTimes_inv [OF calls disjI1 [OF onm]]
  have ft: "scanFixed t = scanFixed ?m" and K: "onPage rest t \<or> offPage rest t" by simp_all
  have mk: "markedPageNo t = curPageNo s" "markedRec t = curRec s"
    using ft by (simp_all add: scanFixed_def markScan_def)
  have fs: "filePages t = filePages s" "hdrImage t = hdrImage s" "numBufs t = numBufs s"
    "offset t = offset s" "length' t = length' s" "type t = type s" "filter' t = filter' s"
    "op t = op s"
    using ft by (simp_all add: scanFixed_def markScan_def)
  have mv: "pageValid t (markedPageNo t)"
    using on by (simp add: mk pageValid_def fs onPage_def)
  from resetScan_restores [OF K mv]
  have ok: "fst (resetScan t) = OK" and fu: "scanFixed ?u = scanFixed t"
    and onu: "onPage rest ?u" and cu: "curPageNo ?u = curPageNo s" "curRec ?u = curRec s"
    by (simp_all add: mk)
  have cpu: "curPage ?u = curPage s" using onu on cu by (simp add: onPage_def)
  have view: "scanView ?u = scanView s"
    using onu on cu fu fs by (simp add: scanView_def scanFixed_def onPage_def)
  have nx: "map_option (\<lambda>(status, outRid, _). (status, outRid)) (scanNext ?u)
        = map_option (\<lambda>(status, outRid, _). (status, outRid)) (scanNext s)"
    using scanLoop_same [OF view] scanNext_positioned [of ?u] scanNext_positioned [of s]
      onPage_positioned [OF onu] onPage_positioned [OF on]
    by simp
  have same: "curPageNo t = curPageNo s \<longrightarrow>
         snd (resetScan t) = t\<lparr>curRec := curRec s\<rparr>
         \<and> bufLog (snd (resetScan t)) = bufLog t \<and> pinned (snd (resetScan t)) = pinned t"
  proof
    assume "curPageNo t = curPageNo s"
    then have "markedPageNo t = curPageNo t" by (simp add: mk)
    from resetScan_same_page [OF this]
    show "snd (resetScan t) = t\<lparr>curRec := curRec s\<rparr>
         \<and> bufLog (snd (resetScan t)) = bufLog t \<and> pinned (snd (resetScan t)) = pinned t"
      by (simp add: mk)
  qed
  from ok cpu cu nx same show ?thesis by (intro conjI)
qed

lemmas scan_eval = markScan_def scanNext_def scanLoop.simps scanStep_def getAndMatch_def
  matchRec_def page_defs exPage_def NULLRID_def exFile3_def exRaw_def buf_defs Let_def

lemma exOtherPage_calls: "scanNextTimes 1 (snd (markScan exAtPageEnd)) = Some exOtherPage"
proof -
  have "\<exists>x. scanNextTimes 1 (snd (markScan exAtPageEnd)) = Some x"
    by (simp add: exAtPageEnd_fields scan_eval)
  then show ?thesis by (auto simp add: exOtherPage_def)
qed

lemma exOtherPage_fields:
  "curPageNo exOtherPage = 4" "curRec exOtherPage = \<lparr>pageNo = 4, slotNo = 0\<rparr>"
  "curPage exOtherPage = Some 4" "pinned exOtherPage = [4, 1]"
  "markedPageNo exOtherPage = 2" "markedRec exOtherPage = \<lparr>pageNo = 2, slotNo = 2\<rparr>"
  "curDirtyFlag exOtherPage = False" "filePages exOtherPage = filePages exFile3"
  "numBufs exOtherPage = 3" "filter' exOtherPage = None"
  by (simp_all add: exOtherPage_def exAtPageEnd_fields scan_eval)

lemma exSamePage_calls: "scanNextTimes 2 (snd (markScan exScan3)) = Some exSamePage"
proof -
  have "\<exists>x. scanNextTimes 2 (snd (markScan exScan3)) = Some x"
    by (simp add: numeral_2_eq_2 exScan3_fields scan_eval)
  then show ?thesis by (auto simp add: exSamePage_def)
qed

lemma exSamePage_fields:
  "curPageNo exSamePage = 2" "curRec exSamePage = \<lparr>pageNo = 2, slotNo = 2\<rparr>"
  "bufLog exSamePage = [EvRead 1 OK, EvRead 2 OK]"
  by (simp_all add: exSamePage_def numeral_2_eq_2 exScan3_fields scan_eval)

lemma exAtPageEnd_record:
  "map_option (\<lambda>(status, outRid, _). (status, outRid)) (scanNext exAtPageEnd) =
     Some (OK, Some \<lparr>pageNo = 4, slotNo = 0\<rparr>)"
  by (simp add: exAtPageEnd_fields scan_eval)

lemma exScan3_record:
  "map_option (\<lambda>(status, outRid, _). (status, outRid)) (scanNext exScan3) =
     Some (OK, Some \<lparr>pageNo = 2, slotNo = 0\<rparr>)"
  by (simp add: exScan3_fields scan_eval)

theorem mark_reset_law_witness:
  "onPage [1] exAtPageEnd \<and> scanNextTimes 1 (snd (markScan exAtPageEnd)) = Some exOtherPage
   \<and> curPageNo exAtPageEnd = 2 \<and> curPageNo exOtherPage = 4
   \<and> fst (resetScan exOtherPage) = OK
   \<and> curPage (snd (resetScan exOtherPage)) = Some 2
   \<and> curPageNo (snd (resetScan exOtherPage)) = 2
   \<and> curRec (snd (resetScan exOtherPage)) = \<lparr>pageNo = 2, slotNo = 2\<rparr>
   \<and> map_option (\<lambda>(status, outRid, _). (status, outRid)) (scanNext (snd (resetScan exOtherPage)))
       = Some (OK, Some \<lparr>pageNo = 4, slotNo = 0\<rparr>)
   \<and> onPage [1] exScan3 \<and> scanNextTimes 2 (snd (markScan exScan3)) = Some exSamePage
   \<and> curPageNo exScan3 = 2 \<and> curPageNo exSamePage = 2
   \<and> curRec exSamePage = \<lparr>pageNo = 2, slotNo = 2\<rparr>
   \<and> snd (resetScan exSamePage) = exSamePage\<lparr>curRec := NULLRID\<rparr>
   \<and> bufLog (snd (resetScan exSamePage)) = [EvRead 1 OK, EvRead 2 OK]
   \<and> map_option (\<lambda>(status, outRid, _). (status, outRid)) (scanNext (snd (resetScan exSamePage)))
       = Some (OK, Some \<lparr>pageNo = 2, slotNo = 0\<rparr>)"
proof -
  have A: "onPage [1] exAtPageEnd"
    by (simp add: onPage_def exAtPageEnd_fields pageValid_def exFile3_def exRaw_def)
  have B: "onPage [1] exScan3"
    by (simp add: onPage_def exScan3_fields pageValid_def exFile3_def exRaw_def)
  note T1 = mark_reset_law [OF A exOtherPage_calls,
      unfolded exAtPageEnd_fields exAtPageEnd_record]
  note T2 = mark_reset_law [OF B exSamePage_calls,
      unfolded exScan3_fields exSamePage_fields exScan3_record simp_thms]
  have 1: "fst (resetScan exOtherPage) = OK
   \<and> curPage (snd (resetScan exOtherPage)) = Some 2
   \<and> curPageNo (snd (resetScan exOtherPage)) = 2
   \<and> curRec (snd (resetScan exOtherPage)) = \<lparr>pageNo = 2, slotNo = 2\<rparr>
   \<and> map_option (\<lambda>(status, outRid, _). (status, outRid)) (scanNext (snd (resetScan exOtherPage)))
       = Some (OK, Some \<lparr>pageNo = 4, slotNo = 0\<rparr>)"
    using T1 by blast
  have 2: "snd (resetScan exSamePage) = exSamePage\<lparr>curRec := NULLRID\<rparr>
   \<and> bufLog (snd (resetScan exSamePage)) = [EvRead 1 OK, EvRead 2 OK]
   \<and> map_option (\<lambda>(status, outRid, _). (status, outRid)) (scanNext (snd (resetScan exSamePage)))
       = Some (OK, Some \<lparr>pageNo = 2, slotNo = 0\<rparr>)"
    using T2 by blast
  have 3: "curPageNo exAtPageEnd = 2" "curPageNo exOtherPage = 4" "curPageNo exScan3 = 2"
    "curPageNo exSamePage = 2" "curRec exSamePage = \<lparr>pageNo = 2, slotNo = 2\<rparr>"
    by (simp_all only: exAtPageEnd_fields exOtherPage_fields exScan3_fields exSamePage_fields)
  from A B 1 2 3 exOtherPage_calls exSamePage_calls show ?thesis by blast
qed

subsection \<open>The end of a scan\<close>

text \<open>
  Claim C4, as the code has it. When \<^verbatim>\<open>scanNext\<close> fails with \<open>FILEEOF\<close> it assigns no
  RID, and the next call, and every call after it, fails with \<open>FILEEOF\<close> again and
  returns the state as it found it: no call to the buffer pool is made. As for the
  cursor, either the scan was already exhausted (\<^verbatim>\<open>curPageNo\<close> negative on entry, state
  unchanged), or the call began with no page pinned and found no first page or no
  record on it (then \<^verbatim>\<open>curPageNo\<close> is \<open>-1\<close> and \<^verbatim>\<open>curPage\<close> is null), or the end of the
  page chain was reached: then \<^verbatim>\<open>curPage\<close> still points to the last page, whose
  forward link is the terminator. For a scan that is on a page or holds no data page,
  over the pins \<open>rest\<close>, more is true: in the second case no data page is pinned
  afterwards (the empty first page has been unpinned), and in the third the last page
  is still pinned, \<^verbatim>\<open>curPage\<close> points to it and \<^verbatim>\<open>curPageNo\<close> names it, a page of the
  file and so not \<open>-1\<close>.
\<close>

theorem scanNext_FILEEOF_is_final:
  assumes "scanNext s = Some (FILEEOF, outRid, s')"
  shows "outRid = None
    \<and> scanNext s' = Some (FILEEOF, None, s')
    \<and> (\<forall>n. scanNextTimes n s' = Some s')
    \<and> (curPageNo s < 0 \<and> s' = s
       \<or> curPage s = None \<and> curPageNo s' = -1 \<and> curPage s' = None
       \<or> (\<exists>p. curPage s' = Some p \<and> nextPage (pageAt s' p) = -1))
    \<and> (onPage rest s \<or> noPage rest s \<longrightarrow>
         curPageNo s < 0 \<and> s' = s
       \<or> curPage s = None \<and> 0 \<le> curPageNo s
           \<and> (firstPage (hdrImage s) = -1
              \<or> Page_firstRecord (pageAt s (firstPage (hdrImage s))) = Inl NORECORDS)
           \<and> curPageNo s' = -1 \<and> curPage s' = None \<and> pinned s' = rest
       \<or> curPage s' = Some (curPageNo s') \<and> pageValid s' (curPageNo s')
           \<and> curPageNo s' \<noteq> -1 \<and> pinned s' = curPageNo s' # rest
           \<and> nextPage (pageAt s' (curPageNo s')) = -1)"
proof -
  note c = scanNext_FILEEOF_cases [OF assms]
  from c have "curPageNo s < 0 \<and> s' = s \<or> curPageNo s' = -1
      \<or> scanStep s' = Return FILEEOF None s'"
    by blast
  then have again: "scanNext s' = Some (FILEEOF, None, s')"
  proof (elim conjE disjE)
    assume "curPageNo s < 0" "s' = s"
    then show ?thesis by (simp add: scanNext_exhausted)
  next
    assume "curPageNo s' = -1"
    then show ?thesis by (simp add: scanNext_exhausted)
  next
    assume "scanStep s' = Return FILEEOF None s'"
    then show ?thesis by (rule scanNext_at_end)
  qed
  have fixed: "\<forall>n. scanNextTimes n s' = Some s'"
    using scanNextTimes_fixed [OF again] by simp
  have cases: "curPageNo s < 0 \<and> s' = s
       \<or> curPage s = None \<and> curPageNo s' = -1 \<and> curPage s' = None
       \<or> (\<exists>p. curPage s' = Some p \<and> nextPage (pageAt s' p) = -1)"
    using c scanStep_FILEEOF [of s' None s'] by blast
  have inv: "curPageNo s < 0 \<and> s' = s
       \<or> curPage s = None \<and> 0 \<le> curPageNo s
           \<and> (firstPage (hdrImage s) = -1
              \<or> Page_firstRecord (pageAt s (firstPage (hdrImage s))) = Inl NORECORDS)
           \<and> curPageNo s' = -1 \<and> curPage s' = None \<and> pinned s' = rest
       \<or> curPage s' = Some (curPageNo s') \<and> pageValid s' (curPageNo s')
           \<and> curPageNo s' \<noteq> -1 \<and> pinned s' = curPageNo s' # rest
           \<and> nextPage (pageAt s' (curPageNo s')) = -1"
    if k: "onPage rest s \<or> noPage rest s"
  proof (cases "curPageNo s < 0")
    case True
    with assms show ?thesis by (simp add: scanNext_exhausted)
  next
    case False
    from scanNext_inv [OF k assms] have k': "onPage rest s' \<or> offPage rest s'" by simp
    from c False have "curPage s = None \<and> curPageNo s' = -1 \<and> curPage s' = None
         \<and> (firstPage (hdrImage s) = -1
            \<or> Page_firstRecord (pageAt s (firstPage (hdrImage s))) = Inl NORECORDS)
       \<or> scanStep s' = Return FILEEOF None s'"
      by blast
    then show ?thesis
    proof
      assume a: "curPage s = None \<and> curPageNo s' = -1 \<and> curPage s' = None
         \<and> (firstPage (hdrImage s) = -1
            \<or> Page_firstRecord (pageAt s (firstPage (hdrImage s))) = Inl NORECORDS)"
      with k' have "pinned s' = rest" by (auto simp add: onPage_def offPage_def)
      with a False show ?thesis by simp
    next
      assume "scanStep s' = Return FILEEOF None s'"
      from scanStep_FILEEOF [OF this] obtain p where p: "curPage s' = Some p"
        "nextPage (pageAt s' p) = -1"
        by blast
      with k' have on: "onPage rest s'" by (auto simp add: offPage_def)
      with p have "p = curPageNo s'" by (simp add: onPage_def)
      with on p show ?thesis by (auto simp add: onPage_def pageValid_def)
    qed
  qed
  from c again fixed cases inv show ?thesis by blast
qed

lemma exAtLast_fields:
  "curPage exAtLast = Some 2" "curRec exAtLast = \<lparr>pageNo = 2, slotNo = 1\<rparr>"
  "filePages exAtLast = filePages exScan1" "curPageNo exAtLast = 2"
  "bufLog exAtLast = bufLog exScan1" "pinned exAtLast = [2, 1]" "numBufs exAtLast = 3"
  by (simp_all add: exAtLast_def numeral_2_eq_2 scanNext_def exScan1_fields scanLoop.simps
        scanStep_def getAndMatch_def matchRec_def page_defs exPage_def NULLRID_def)

lemma exAtLast_FILEEOF: "scanNext exAtLast = Some (FILEEOF, None, exAtLast)"
proof -
  have "scanStep exAtLast = Return FILEEOF None exAtLast"
    by (rule scanStep_eof [of _ 2])
      (simp_all add: exAtLast_fields exScan1_fields pageAt_def exPage_def nextLive_def)
  then show ?thesis by (rule scanNext_at_end)
qed


lemma exScanE_fields:
  "curPage exScanE = Some 2" "curPageNo exScanE = 2" "curRec exScanE = NULLRID"
  "filePages exScanE = filePages exFileEmptyFirst"
  "pinned exScanE = [2, 1]" "filter' exScanE = None"
  "bufLog exScanE = [EvRead 1 OK, EvRead 2 OK]" "curDirtyFlag exScanE = False"
  "numBufs exScanE = 3" "hdrImage exScanE = exHdr 2 3 2 1"
  by (simp_all add: exScanE_def exFileEmptyFirst_def exRaw_def ctor_defs buf_defs exHdr_def)

lemma exRestarted_fields:
  "curPage exRestarted = None" "curPageNo exRestarted = 0" "curRec exRestarted = NULLRID"
  "filePages exRestarted = filePages exFileEmptyFirst"
  "pinned exRestarted = [1]" "filter' exRestarted = None"
  "bufLog exRestarted = [EvRead 1 OK, EvRead 2 OK, EvUnPin 2 False OK]"
  "numBufs exRestarted = 3" "hdrImage exRestarted = exHdr 2 3 2 1"
  by (simp_all add: exRestarted_def startScan_null endScan_def unPinPage_def exScanE_fields)

lemma exRestarted_FILEEOF: "scanNext exRestarted = Some (FILEEOF, None, exExhausted)"
proof -
  have "\<exists>x. scanNext exRestarted = Some (FILEEOF, None, x)"
    by (simp add: scanNext_def exRestarted_fields exHdr_def exFileEmptyFirst_def exRaw_def
          exPage_def page_defs buf_defs Let_def)
  then show ?thesis by (auto simp add: exExhausted_def)
qed

lemma exExhausted_fields:
  "curPageNo exExhausted = -1" "curPage exExhausted = None" "pinned exExhausted = [1]"
  "bufLog exExhausted = [EvRead 1 OK, EvRead 2 OK, EvUnPin 2 False OK, EvRead 2 OK,
                         EvUnPin 2 False OK]"
  by (simp_all add: exExhausted_def scanNext_def exRestarted_fields exHdr_def
        exFileEmptyFirst_def exRaw_def exPage_def page_defs buf_defs Let_def)

text \<open>
  Instances: the scan on the one-page file, positioned on its last record; and a
  scan restarted after \<^verbatim>\<open>endScan\<close> on a file whose first page is empty.
\<close>

theorem scanNext_FILEEOF_is_final_witness:
  "scanNext exAtLast = Some (FILEEOF, None, exAtLast)
   \<and> (\<forall>n. scanNextTimes n exAtLast = Some exAtLast)
   \<and> curPage exAtLast = Some 2 \<and> curPageNo exAtLast = 2 \<and> pinned exAtLast = [2, 1]
   \<and> nextPage (pageAt exAtLast 2) = -1
   \<and> scanNext exRestarted = Some (FILEEOF, None, exExhausted)
   \<and> scanNext exExhausted = Some (FILEEOF, None, exExhausted)
   \<and> curPageNo exExhausted = -1 \<and> curPage exExhausted = None \<and> pinned exExhausted = [1]"
proof -
  have on: "onPage [1] exAtLast"
    by (simp add: onPage_def exAtLast_fields exScan1_fields pageValid_def exRaw_def
          exFile1_def)
  have no: "noPage [1] exRestarted"
    by (simp add: noPage_def exRestarted_fields)
  note a = scanNext_FILEEOF_is_final [OF exAtLast_FILEEOF, of "[1]"]
  note b = scanNext_FILEEOF_is_final [OF exRestarted_FILEEOF, of "[1]"]
  have 1: "scanNext exAtLast = Some (FILEEOF, None, exAtLast)"
    "\<forall>n. scanNextTimes n exAtLast = Some exAtLast"
    using a by blast+
  have 2: "curPage exAtLast = Some 2 \<and> curPageNo exAtLast = 2 \<and> pinned exAtLast = [2, 1]
     \<and> nextPage (pageAt exAtLast 2) = -1"
    using a on by (simp add: exAtLast_fields)
  have 3: "scanNext exExhausted = Some (FILEEOF, None, exExhausted)"
    using b by blast
  have 4: "curPageNo exExhausted = -1 \<and> curPage exExhausted = None \<and> pinned exExhausted = [1]"
    using b no by (simp add: exExhausted_fields)
  from 1 2 3 4 exRestarted_FILEEOF show ?thesis by blast
qed

text \<open>
  The claim puts the cursor in the state with \<^verbatim>\<open>curPageNo\<close> \<open>-1\<close> whenever \<^verbatim>\<open>scanNext\<close>
  fails with \<open>FILEEOF\<close>. On the one-page file the third call fails with \<open>FILEEOF\<close> and
  leaves \<^verbatim>\<open>curPageNo\<close> at 2, with page 2 still pinned.
\<close>

theorem scanNext_FILEEOF_keeps_page:
  "scanNextTimes 2 exScan1 = Some exAtLast
   \<and> scanNext exAtLast = Some (FILEEOF, None, exAtLast)
   \<and> curPageNo exAtLast = 2 \<and> curPage exAtLast = Some 2 \<and> 2 \<in> set (pinned exAtLast)"
proof -
  have "scanNextTimes 2 exScan1 \<noteq> None"
    by (simp add: numeral_2_eq_2 scanNext_def exScan1_fields scanLoop.simps
        scanStep_def getAndMatch_def matchRec_def page_defs exPage_def NULLRID_def)
  then have "scanNextTimes 2 exScan1 = Some exAtLast"
    by (auto simp add: exAtLast_def)
  then show ?thesis
    using exAtLast_FILEEOF by (simp add: exAtLast_fields)
qed



subsection \<open>A scan that starts with no page pinned\<close>








lemma endScan_onPage:
  assumes "onPage rest t"
  shows "fst (endScan t) = OK" and "noPage rest (snd (endScan t))"
    and "curPageNo (snd (endScan t)) = 0"
    and "filePages (snd (endScan t)) = filePages t" and "hdrImage (snd (endScan t)) = hdrImage t"
  using assms by (simp_all add: endScan_def unPinPage_def onPage_def noPage_def)









subsection \<open>A mark where the scan holds no page\<close>

lemma exRestarted3_fields:
  "curPage exRestarted3 = None" "curPageNo exRestarted3 = 0" "curRec exRestarted3 = NULLRID"
  "filePages exRestarted3 = filePages exFile3"
  "pinned exRestarted3 = [1]" "filter' exRestarted3 = None"
  "bufLog exRestarted3 = [EvRead 1 OK, EvRead 2 OK, EvUnPin 2 False OK]"
  "numBufs exRestarted3 = 3" "hdrImage exRestarted3 = exHdr 2 4 3 3"
  "curDirtyFlag exRestarted3 = False"
  by (simp_all add: exRestarted3_def startScan_null endScan_def unPinPage_def exScan3_fields)
    (simp add: exScan3_def exFile3_def exRaw_def ctor_defs buf_defs exHdr_def)

lemma exMovedFromStart_calls:
  "scanNextTimes 1 (snd (markScan exRestarted3)) = Some exMovedFromStart"
proof -
  have "\<exists>x. scanNextTimes 1 (snd (markScan exRestarted3)) = Some x"
    by (simp add: exRestarted3_fields exHdr_def scan_eval statusOf_def)
  then show ?thesis by (auto simp add: exMovedFromStart_def)
qed

lemma exMovedFromStart_fields:
  "curPageNo exMovedFromStart = 2" "curRec exMovedFromStart = \<lparr>pageNo = 2, slotNo = 0\<rparr>"
  "curPage exMovedFromStart = Some 2" "pinned exMovedFromStart = [2, 1]"
  "markedPageNo exMovedFromStart = 0" "markedRec exMovedFromStart = NULLRID"
  "curDirtyFlag exMovedFromStart = False" "filePages exMovedFromStart = filePages exFile3"
  "numBufs exMovedFromStart = 3"
  "bufLog exMovedFromStart = [EvRead 1 OK, EvRead 2 OK, EvUnPin 2 False OK, EvRead 2 OK]"
  by (simp_all add: exMovedFromStart_def exRestarted3_fields exHdr_def scan_eval statusOf_def)

text \<open>
  The claim has the law for every position of a scan. The position from which a scan
  starts again after \<^verbatim>\<open>endScan\<close> holds no page, and \<^verbatim>\<open>curPageNo\<close> is 0 there. \<^verbatim>\<open>markScan\<close>
  records page 0; after one \<^verbatim>\<open>scanNext\<close>, which returns the first record of page 2,
  \<^verbatim>\<open>resetScan\<close> unpins page 2 and pins page 0, which is no data page of the file, and
  returns \<open>OK\<close> with \<^verbatim>\<open>curPage\<close> pointing to it: the cursor is not where it was marked.
\<close>

theorem resetScan_to_unstarted_position:
  "fst (endScan exScan3) = OK
   \<and> curPage exRestarted3 = None \<and> curPageNo exRestarted3 = 0
   \<and> scanNextTimes 1 (snd (markScan exRestarted3)) = Some exMovedFromStart
   \<and> curPage exMovedFromStart = Some 2
   \<and> curRec exMovedFromStart = \<lparr>pageNo = 2, slotNo = 0\<rparr>
   \<and> fst (resetScan exMovedFromStart) = OK
   \<and> curPage (snd (resetScan exMovedFromStart)) = Some 0
   \<and> curPageNo (snd (resetScan exMovedFromStart)) = 0
   \<and> pinned (snd (resetScan exMovedFromStart)) = [0, 1]
   \<and> bufLog (snd (resetScan exMovedFromStart)) =
       [EvRead 1 OK, EvRead 2 OK, EvUnPin 2 False OK, EvRead 2 OK, EvUnPin 2 False OK,
        EvRead 0 OK]"
proof -
  have 1: "fst (endScan exScan3) = OK"
    by (simp add: endScan_def unPinPage_def exScan3_fields)
  have 2: "fst (resetScan exMovedFromStart) = OK
   \<and> curPage (snd (resetScan exMovedFromStart)) = Some 0
   \<and> curPageNo (snd (resetScan exMovedFromStart)) = 0
   \<and> pinned (snd (resetScan exMovedFromStart)) = [0, 1]
   \<and> bufLog (snd (resetScan exMovedFromStart)) =
       [EvRead 1 OK, EvRead 2 OK, EvUnPin 2 False OK, EvRead 2 OK, EvUnPin 2 False OK,
        EvRead 0 OK]"
    by (simp add: resetScan_def exMovedFromStart_fields buf_defs exFile3_def exRaw_def Let_def)
  have 3: "curPage exRestarted3 = None" "curPageNo exRestarted3 = 0"
    "curPage exMovedFromStart = Some 2" "curRec exMovedFromStart = \<lparr>pageNo = 2, slotNo = 0\<rparr>"
    by (simp_all only: exRestarted3_fields exMovedFromStart_fields)
  from 1 2 3 exMovedFromStart_calls show ?thesis by blast
qed

end
